theory Spec2Isabelle
  imports Main "HOL-Library.AList"
begin

section \<open>Python values, dictionaries and errors\<close>

text \<open>
  The program is \<^verbatim>\<open>src/compose_addons/includes.py\<close> (Python 2: it iterates with
  \<^verbatim>\<open>iteritems\<close>, and \<^verbatim>\<open>keys()\<close> returns a list). A parsed configuration is
  a dictionary of dynamically typed values; \<open>pyval\<close> is the part of Python's value
  space a YAML document parses to. A dictionary is an association list in its
  iteration order; a well-formed one has pairwise distinct keys.
\<close>

datatype pyval =
    PNone
  | PBool bool
  | PInt int
  | PStr string
  | PList "pyval list"
  | PDict "(string \<times> pyval) list"

type_synonym pydict = "(string \<times> pyval) list"

record url =
  scheme :: string
  netloc :: string
  path :: string
  params :: string
  query :: string
  fragment :: string

text \<open>
  Every exception the code can raise is a value. \<open>ConfigError\<close> is the
  unsupported-scheme error of \<^verbatim>\<open>fetch_external_config\<close>, with the two values its
  message is formatted from; \<open>FetchExternalConfigError\<close> carries the location and
  the cause. \<open>RuntimeError\<close> is Python's "maximum recursion depth exceeded" and
  "dictionary changed size during iteration".
\<close>

datatype error =
    IndexError
  | KeyError
  | TypeError
  | AttributeError
  | RuntimeError
  | IOError
  | OSError
  | FetchExternalConfigError url string
  | ConfigError string url

text \<open>\<^verbatim>\<open>if v:\<close> --- Python's truth value of a parsed value.\<close>

fun truthy :: "pyval \<Rightarrow> bool" where
  "truthy PNone = False"
| "truthy (PBool b) = b"
| "truthy (PInt n) = (n \<noteq> 0)"
| "truthy (PStr s) = (s \<noteq> [])"
| "truthy (PList xs) = (xs \<noteq> [])"
| "truthy (PDict kvs) = (kvs \<noteq> [])"

text \<open>\<^verbatim>\<open>d.pop(k, default)\<close>: the value and the dictionary without the key.\<close>

definition dict_pop :: "'k \<Rightarrow> 'v \<Rightarrow> ('k \<times> 'v) list \<Rightarrow> 'v \<times> ('k \<times> 'v) list" where
  "dict_pop k dflt d =
     (case map_of d k of
        None \<Rightarrow> (dflt, d)
      | Some v \<Rightarrow> (v, AList.delete k d))"

text \<open>\<^verbatim>\<open>d.get(k, default)\<close>.\<close>

definition dict_get :: "'k \<Rightarrow> 'v \<Rightarrow> ('k \<times> 'v) list \<Rightarrow> 'v" where
  "dict_get k dflt d = (case map_of d k of None \<Rightarrow> dflt | Some v \<Rightarrow> v)"

text \<open>\<^verbatim>\<open>d.update(other)\<close>: \<^verbatim>\<open>d[k] = v\<close> for every item of \<open>other\<close>, in its order.\<close>

definition dict_update :: "('k \<times> 'v) list \<Rightarrow> ('k \<times> 'v) list \<Rightarrow> ('k \<times> 'v) list" where
  "dict_update d other = fold (\<lambda>kv. AList.update (fst kv) (snd kv)) other d"

text \<open>\<^verbatim>\<open>s.split(c)\<close> for a one-character separator: never empty.\<close>

fun split_on :: "char \<Rightarrow> string \<Rightarrow> string list" where
  "split_on c [] = [[]]"
| "split_on c (x # xs) =
     (if x = c then [] # split_on c xs
      else (case split_on c xs of
              [] \<Rightarrow> [[x]]
            | p # ps \<Rightarrow> (x # p) # ps))"

text \<open>
  Sequences. \<^verbatim>\<open>enumerate(seq)\<close> walks a list's items, a string's characters (each
  a one-character string) or a dictionary's keys, and raises on anything else.
\<close>

fun py_iter :: "pyval \<Rightarrow> error + pyval list" where
  "py_iter (PList xs) = Inr xs"
| "py_iter (PStr s) = Inr (map (\<lambda>c. PStr [c]) s)"
| "py_iter (PDict kvs) = Inr (map (\<lambda>kv. PStr (fst kv)) kvs)"
| "py_iter PNone = Inl TypeError"
| "py_iter (PBool b) = Inl TypeError"
| "py_iter (PInt n) = Inl TypeError"

text \<open>
  \<^verbatim>\<open>seq[index] = v\<close> inside such a loop. A list is updated in place; a string
  does not support item assignment; a dictionary would gain the integer key
  \<open>index\<close>, which none of its string keys equals, so its size changes and the
  loop's next step raises "dictionary changed size during iteration".
\<close>

fun set_item :: "pyval \<Rightarrow> nat \<Rightarrow> pyval \<Rightarrow> error + pyval" where
  "set_item (PList xs) index v =
     (if index < length xs then Inr (PList (xs[index := v])) else Inl IndexError)"
| "set_item (PDict kvs) index v = Inl RuntimeError"
| "set_item (PStr s) index v = Inl TypeError"
| "set_item PNone index v = Inl TypeError"
| "set_item (PBool b) index v = Inl TypeError"
| "set_item (PInt n) index v = Inl TypeError"

text \<open>\<^verbatim>\<open>len(seq)\<close> of a value \<^verbatim>\<open>enumerate\<close> has accepted.\<close>

fun py_len :: "pyval \<Rightarrow> nat" where
  "py_len (PList xs) = length xs"
| "py_len (PStr s) = length s"
| "py_len (PDict kvs) = length kvs"
| "py_len PNone = 0"
| "py_len (PBool b) = 0"
| "py_len (PInt n) = 0"

text \<open>
  The loop shape shared by the four rewritten fields:
  \<^verbatim>\<open>
  for index, item in enumerate(seq):
      ... continue, raise, or seq[index] = new ...
  \<close>
  The body is a function of the item: \<open>Inr None\<close> leaves the entry alone,
  \<open>Inr (Some new)\<close> assigns, \<open>Inl e\<close> raises.
\<close>

fun enumerate_assign ::
  "(pyval \<Rightarrow> error + pyval option) \<Rightarrow> nat \<Rightarrow> pyval list \<Rightarrow> pyval \<Rightarrow> error + pyval" where
  "enumerate_assign body index [] seq = Inr seq"
| "enumerate_assign body index (item # items) seq =
     (case body item of
        Inl e \<Rightarrow> Inl e
      | Inr None \<Rightarrow> enumerate_assign body (Suc index) items seq
      | Inr (Some v) \<Rightarrow>
          (case set_item seq index v of
             Inl e \<Rightarrow> Inl e
           | Inr seq' \<Rightarrow> enumerate_assign body (Suc index) items seq'))"

text \<open>
  \<^verbatim>\<open>
  seq = service.pop(field, [])
  for index, item in enumerate(seq): ...
  if len(seq) > 0:
      service[field] = seq
  \<close>
\<close>

definition rewrite_field ::
  "string \<Rightarrow> (pyval \<Rightarrow> error + pyval option) \<Rightarrow> pydict \<Rightarrow> error + pydict" where
  "rewrite_field field body service =
     (case dict_pop field (PList []) service of
        (seq, service1) \<Rightarrow>
          (case py_iter seq of
             Inl e \<Rightarrow> Inl e
           | Inr items \<Rightarrow>
               (case enumerate_assign body 0 items seq of
                  Inl e \<Rightarrow> Inl e
                | Inr seq' \<Rightarrow>
                    Inr (if py_len seq' > 0 then AList.update field seq' service1
                         else service1))))"

section \<open>The path normalizer\<close>

text \<open>
  \<^verbatim>\<open>os.path.abspath\<close> depends on the working directory, so it is a parameter
  \<open>ab\<close>; on anything but a string it raises.
\<close>

definition py_abspath :: "(string \<Rightarrow> string) \<Rightarrow> pyval \<Rightarrow> error + pyval" where
  "py_abspath ab v = (case v of PStr s \<Rightarrow> Inr (PStr (ab s)) | _ \<Rightarrow> Inl AttributeError)"

text \<open>
  \<^verbatim>\<open>
  if ':' in volume:
      host = volume.split(':')[0]
      container = volume.split(':')[1]
      host = os.path.abspath(host)
      volumes[index] = host + ':' + container
  \<close>
\<close>

definition volume_item :: "(string \<Rightarrow> string) \<Rightarrow> pyval \<Rightarrow> error + pyval option" where
  "volume_item ab volume =
     (case volume of
        PStr s \<Rightarrow>
          if CHR '':'' \<in> set s then
            (case split_on CHR '':'' s of
               host # container # _ \<Rightarrow> Inr (Some (PStr (ab host @ '':'' @ container)))
             | _ \<Rightarrow> Inl IndexError)
          else Inr None
      | PList ys \<Rightarrow> if PStr '':'' \<in> set ys then Inl AttributeError else Inr None
      | PDict kvs \<Rightarrow> if '':'' \<in> fst ` set kvs then Inl AttributeError else Inr None
      | _ \<Rightarrow> Inl TypeError)"

text \<open>\<^verbatim>\<open>env_file[index] = os.path.abspath(env)\<close>\<close>

definition env_item :: "(string \<Rightarrow> string) \<Rightarrow> pyval \<Rightarrow> error + pyval option" where
  "env_item ab env = (case py_abspath ab env of Inl e \<Rightarrow> Inl e | Inr v \<Rightarrow> Inr (Some v))"

text \<open>
  The body of \<^verbatim>\<open>resolve_relative_paths\<close>'s loop, for one service:
  \<^verbatim>\<open>
  build = service.pop('build', None)
  if build:
      build = os.path.abspath(build)
      service['build'] = build
  volumes = service.pop('volumes', [])
  ...
  env_file = service.pop('env_file', [])
  ...
  extends = service.pop('extends', None)
  if extends and extends.file:
      extends.file = os.path.abspath(extends.file)
      service.extends = extends
  \<close>
  \<^verbatim>\<open>extends.file\<close> is an attribute access. No parsed value has an attribute
  \<^verbatim>\<open>file\<close>, so every truthy \<^verbatim>\<open>extends\<close> raises AttributeError there and the two
  lines under the test are never reached; a falsy one has been popped and stays
  out. \<^verbatim>\<open>pop\<close> with two arguments raises TypeError on a list and AttributeError
  on the other values that are not dictionaries.
\<close>

definition resolve_service_paths :: "(string \<Rightarrow> string) \<Rightarrow> pyval \<Rightarrow> error + pyval" where
  "resolve_service_paths ab service =
     (case service of
        PDict d \<Rightarrow>
          (case dict_pop ''build'' PNone d of
             (build, d1) \<Rightarrow>
               (case (if truthy build
                      then (case py_abspath ab build of
                              Inl e \<Rightarrow> Inl e
                            | Inr b \<Rightarrow> Inr (AList.update ''build'' b d1))
                      else Inr d1) of
                  Inl e \<Rightarrow> Inl e
                | Inr d2 \<Rightarrow>
                    (case rewrite_field ''volumes'' (volume_item ab) d2 of
                       Inl e \<Rightarrow> Inl e
                     | Inr d3 \<Rightarrow>
                         (case rewrite_field ''env_file'' (env_item ab) d3 of
                            Inl e \<Rightarrow> Inl e
                          | Inr d4 \<Rightarrow>
                              (case dict_pop ''extends'' PNone d4 of
                                 (extends, d5) \<Rightarrow>
                                   if truthy extends then Inl AttributeError
                                   else Inr (PDict d5))))))
      | PList xs \<Rightarrow> Inl TypeError
      | _ \<Rightarrow> Inl AttributeError)"

text \<open>
  \<^verbatim>\<open>
  def resolve_relative_paths(config):
      for key, service in config.iteritems():
          ...
      return config
  \<close>
  It runs on a freshly parsed document, which nothing else references yet, so
  the in-place mutation is a function from the document to the new document.
\<close>

fun resolve_relative_paths :: "(string \<Rightarrow> string) \<Rightarrow> pydict \<Rightarrow> error + pydict" where
  "resolve_relative_paths ab [] = Inr []"
| "resolve_relative_paths ab ((key, service) # config) =
     (case resolve_service_paths ab service of
        Inl e \<Rightarrow> Inl e
      | Inr service' \<Rightarrow>
          (case resolve_relative_paths ab config of
             Inl e \<Rightarrow> Inl e
           | Inr config' \<Rightarrow> Inr ((key, service') # config')))"

section \<open>The namespace rewriter\<close>

text \<open>
  The body of the \<^verbatim>\<open>links\<close> loop:
  \<^verbatim>\<open>
  name = link.split(':')[0]
  alias = link.split(':')[1]
  if name not in servicekeys:
      continue
  if namespace:
      name = namespace + '.' + name
  if alias:
      links[index] = name + ':' + alias
  else:
      links[index] = name
  \<close>
  \<^verbatim>\<open>split(':')[1]\<close> is read before the membership test: an entry without a
  \<open>':'\<close> raises IndexError.
\<close>

definition link_item :: "string \<Rightarrow> string list \<Rightarrow> pyval \<Rightarrow> error + pyval option" where
  "link_item namespace servicekeys link =
     (case link of
        PStr s \<Rightarrow>
          (case split_on CHR '':'' s of
             name # alias # _ \<Rightarrow>
               if name \<notin> set servicekeys then Inr None
               else (let name' = (if namespace \<noteq> [] then namespace @ ''.'' @ name else name)
                     in if alias \<noteq> [] then Inr (Some (PStr (name' @ '':'' @ alias)))
                        else Inr (Some (PStr name')))
           | _ \<Rightarrow> Inl IndexError)
      | _ \<Rightarrow> Inl AttributeError)"

text \<open>
  The body of the \<^verbatim>\<open>volumes_from\<close> loop:
  \<^verbatim>\<open>
  name = volume.split(':')[0]
  if name not in servicekeys:
      continue
  alias = None
  if len(volume.split(':')) > 1:
      alias = volume.split(':')[1]
  if namespace:
      name = namespace + '.' + name
  if alias:
      volumes_from[index] = name + ':' + alias
  else:
      volumes_from[index] = name
  \<close>
\<close>

definition volumes_from_item :: "string \<Rightarrow> string list \<Rightarrow> pyval \<Rightarrow> error + pyval option" where
  "volumes_from_item namespace servicekeys volume =
     (case volume of
        PStr s \<Rightarrow>
          (case split_on CHR '':'' s of
             [] \<Rightarrow> Inl IndexError
           | name # rest \<Rightarrow>
               if name \<notin> set servicekeys then Inr None
               else (let alias = (case rest of [] \<Rightarrow> None | a # _ \<Rightarrow> Some a);
                         name' = (if namespace \<noteq> [] then namespace @ ''.'' @ name else name)
                     in (case alias of
                           None \<Rightarrow> Inr (Some (PStr name'))
                         | Some a \<Rightarrow>
                             if a \<noteq> [] then Inr (Some (PStr (name' @ '':'' @ a)))
                             else Inr (Some (PStr name')))))
      | _ \<Rightarrow> Inl AttributeError)"

text \<open>The body of \<^verbatim>\<open>resolve_namespaced_links\<close>'s outer loop, for one service.\<close>

definition resolve_service_links :: "string \<Rightarrow> string list \<Rightarrow> pyval \<Rightarrow> error + pyval" where
  "resolve_service_links namespace servicekeys service =
     (case service of
        PDict d \<Rightarrow>
          (case rewrite_field ''links'' (link_item namespace servicekeys) d of
             Inl e \<Rightarrow> Inl e
           | Inr d1 \<Rightarrow>
               (case rewrite_field ''volumes_from'' (volumes_from_item namespace servicekeys) d1 of
                  Inl e \<Rightarrow> Inl e
                | Inr d2 \<Rightarrow> Inr (PDict d2)))
      | PList xs \<Rightarrow> Inl TypeError
      | _ \<Rightarrow> Inl AttributeError)"

section \<open>Shared objects: the store\<close>

text \<open>
  The cache hands out \<^verbatim>\<open>dict(self.cache[url])\<close>: a new top-level dictionary whose
  values are the \<^emph>\<open>same\<close> objects as the cached one's. So a top-level dictionary
  (a \<open>config\<close>) maps each key to the address of its value, and the values live
  in a store that every copy shares. Below the top level a parsed document is a
  tree, so a service's own fields are kept inside the service.
\<close>

type_synonym addr = nat
type_synonym config = "(string \<times> addr) list"
type_synonym store = "addr \<Rightarrow> pyval"

text \<open>
  \<^verbatim>\<open>
  def resolve_namespaced_links(config, namespace, servicekeys):
      for key, service in config.iteritems():
          if key not in servicekeys:
              continue
          ...
      return config
  \<close>
  The top-level dictionary is not changed; the services it refers to are.
\<close>

fun resolve_namespaced_links :: "config \<Rightarrow> string \<Rightarrow> string list \<Rightarrow> store \<Rightarrow> error + store" where
  "resolve_namespaced_links [] namespace servicekeys h = Inr h"
| "resolve_namespaced_links ((key, a) # config) namespace servicekeys h =
     (if key \<notin> set servicekeys then resolve_namespaced_links config namespace servicekeys h
      else (case resolve_service_links namespace servicekeys (h a) of
              Inl e \<Rightarrow> Inl e
            | Inr service \<Rightarrow>
                resolve_namespaced_links config namespace servicekeys (h(a := service))))"

text \<open>The document a top-level dictionary stands for in a store.\<close>

definition deref :: "store \<Rightarrow> config \<Rightarrow> pydict" where
  "deref h config = map (\<lambda>ka. (fst ka, h (snd ka))) config"

section \<open>The merge engine\<close>

text \<open>
  \<^verbatim>\<open>
  def merge_configs(base, configs):
      for config in configs:
          base.update(config)
      return base
  \<close>
\<close>

fun merge_configs :: "('k \<times> 'v) list \<Rightarrow> ('k \<times> 'v) list list \<Rightarrow> ('k \<times> 'v) list" where
  "merge_configs base [] = base"
| "merge_configs base (config # configs) = merge_configs (dict_update base config) configs"

section \<open>Locating and fetching a document\<close>

text \<open>
  What the code takes from its libraries and from the outside world is a
  parameter: \<^verbatim>\<open>urlparse\<close>, \<^verbatim>\<open>os.path.dirname\<close>, \<^verbatim>\<open>os.path.abspath\<close> (under the
  directory \<^verbatim>\<open>get_project_from_file\<close> has changed to), reading and parsing a
  file (\<^verbatim>\<open>os.chdir\<close>, \<^verbatim>\<open>open\<close>, \<^verbatim>\<open>read_config\<close>), the HTTP request with its parsed
  body (\<open>Inl\<close> is the text of a RequestException), and the S3 connection (a
  bucket maps a key to its parsed contents; \<open>Inl\<close> is the text of a boto error).
\<close>

record world =
  urlparse :: "string \<Rightarrow> url"
  dirname :: "string \<Rightarrow> string"
  abspath :: "string \<Rightarrow> string \<Rightarrow> string"
  read_file :: "string \<Rightarrow> string \<Rightarrow> error + pydict"
  http_request :: "url \<Rightarrow> pyval \<Rightarrow> pyval \<Rightarrow> pyval \<Rightarrow> pyval \<Rightarrow> string + pydict"
  s3_get_bucket :: "string \<Rightarrow> string + (string \<Rightarrow> pydict option)"

text \<open>
  \<^verbatim>\<open>
  def normalize_url(url):
      url = urlparse(url)
      return url if url.scheme else url._replace(scheme='file')
  \<close>
\<close>

definition normalize_url :: "world \<Rightarrow> string \<Rightarrow> url" where
  "normalize_url w ref =
     (let u = urlparse w ref in if scheme u \<noteq> [] then u else u\<lparr>scheme := ''file''\<rparr>)"

text \<open>
  \<^verbatim>\<open>
  def get_project_from_file(url):
      old_dir = os.getcwd()
      os.chdir(os.path.dirname(url.path))
      path = url.netloc + url.path if url.netloc.startswith('.') else url.path
      with open(path, 'r') as fh:
          config = resolve_relative_paths(read_config(fh))
          os.chdir(old_dir)
          return config
  \<close>
\<close>

definition get_project_from_file :: "world \<Rightarrow> url \<Rightarrow> error + pydict" where
  "get_project_from_file w u =
     (let dir = dirname w (path u);
          p = (if take 1 (netloc u) = ''.'' then netloc u @ path u else path u)
      in (case read_file w dir p of
            Inl e \<Rightarrow> Inl e
          | Inr config \<Rightarrow> resolve_relative_paths (abspath w dir) config))"

text \<open>
  \<^verbatim>\<open>
  def get_project_from_http(url, config):
      try:
          response = requests.get(
              url.geturl(),
              timeout=config.get('timeout', 20),
              verify=config.get('verify_ssl_cert', True),
              cert=config.get('ssl_cert', None),
              proxies=config.get('proxies', None))
          response.raise_for_status()
      except requests.exceptions.RequestException as e:
          raise FetchExternalConfigError(...)
      return read_config(response.text)
  \<close>
\<close>

definition get_project_from_http :: "world \<Rightarrow> url \<Rightarrow> pydict \<Rightarrow> error + pydict" where
  "get_project_from_http w u config =
     (case http_request w u
             (dict_get ''timeout'' (PInt 20) config)
             (dict_get ''verify_ssl_cert'' (PBool True) config)
             (dict_get ''ssl_cert'' PNone config)
             (dict_get ''proxies'' PNone config) of
        Inl cause \<Rightarrow> Inl (FetchExternalConfigError u cause)
      | Inr doc \<Rightarrow> Inr doc)"

text \<open>
  \<^verbatim>\<open>
  def get_project_from_s3(url):
      try:
          conn = get_boto_conn()
          bucket = conn.get_bucket(url.netloc)
      except (boto.exception.BotoServerError, boto.exception.BotoClientError) as e:
          raise FetchExternalConfigError(...)
      key = bucket.get_key(url.path)
      if not key:
          raise FetchExternalConfigError("Failed to include %s: Not Found" % url.geturl())
      return read_config(key.get_contents_as_string())
  \<close>
\<close>

definition get_project_from_s3 :: "world \<Rightarrow> url \<Rightarrow> error + pydict" where
  "get_project_from_s3 w u =
     (case s3_get_bucket w (netloc u) of
        Inl cause \<Rightarrow> Inl (FetchExternalConfigError u cause)
      | Inr bucket \<Rightarrow>
          (case bucket (path u) of
             None \<Rightarrow> Inl (FetchExternalConfigError u ''Not Found'')
           | Some doc \<Rightarrow> Inr doc))"

text \<open>
  \<^verbatim>\<open>
  def fetch_external_config(url, fetch_config):
      if url.scheme in ('http', 'https'):
          return get_project_from_http(url, fetch_config)
      if url.scheme == 'file':
          return get_project_from_file(url)
      if url.scheme == 's3':
          return get_project_from_s3(url)
      raise ConfigError("Unsupported url scheme \"%s\" for %s." % (url.scheme, url))
  \<close>
\<close>

definition fetch_external_config :: "world \<Rightarrow> url \<Rightarrow> pydict \<Rightarrow> error + pydict" where
  "fetch_external_config w u fetch_config =
     (if scheme u = ''http'' \<or> scheme u = ''https'' then get_project_from_http w u fetch_config
      else if scheme u = ''file'' then get_project_from_file w u
      else if scheme u = ''s3'' then get_project_from_s3 w u
      else Inl (ConfigError (scheme u) u))"

section \<open>The document cache\<close>

text \<open>
  The state of one run: the store of shared objects with its next free
  address, and the cache's table.
\<close>

record state =
  heap :: store
  next_addr :: addr
  cache :: "(url \<times> config) list"

text \<open>
  A parsed document enters the store: each top-level value is a new object.
\<close>

fun alloc_config :: "pydict \<Rightarrow> state \<Rightarrow> config \<times> state" where
  "alloc_config [] st = ([], st)"
| "alloc_config ((key, v) # doc) st =
     (case alloc_config doc
             (st\<lparr>heap := (heap st)(next_addr st := v), next_addr := Suc (next_addr st)\<rparr>) of
        (config, st') \<Rightarrow> ((key, next_addr st) # config, st'))"

text \<open>
  \<^verbatim>\<open>
  def get(self, url):
      if url not in self.cache:
          self.cache[url] = self.fetch_func(url)
      return dict(self.cache[url])
  \<close>
  with \<^verbatim>\<open>fetch_func(url) = fetch_external_config(url, fetch_config)\<close>. The returned
  copy is a top-level dictionary of its own (a value here) over the cached
  document's objects (the same addresses).
\<close>

definition ConfigCache_get :: "world \<Rightarrow> pydict \<Rightarrow> url \<Rightarrow> state \<Rightarrow> error + (config \<times> state)" where
  "ConfigCache_get w fetch_config u st =
     (case map_of (cache st) u of
        Some config \<Rightarrow> Inr (config, st)
      | None \<Rightarrow>
          (case fetch_external_config w u fetch_config of
             Inl e \<Rightarrow> Inl e
           | Inr doc \<Rightarrow>
               (case alloc_config doc st of
                  (config, st1) \<Rightarrow> Inr (config, st1\<lparr>cache := (u, config) # cache st1\<rparr>))))"

section \<open>The include resolver\<close>

text \<open>
  The renaming loop of \<^verbatim>\<open>fetch_include\<close>, over the list \<^verbatim>\<open>config.keys()\<close> taken
  before the loop:
  \<^verbatim>\<open>
  for key in config.keys():
      if key == 'include':
          continue
      service = config.pop(key)
      config[namespace + '.' + key] = service
  \<close>
\<close>

fun qualify_keys :: "string \<Rightarrow> string list \<Rightarrow> config \<Rightarrow> error + config" where
  "qualify_keys namespace [] config = Inr config"
| "qualify_keys namespace (key # keys) config =
     (if key = ''include'' then qualify_keys namespace keys config
      else (case map_of config key of
              None \<Rightarrow> Inl KeyError
            | Some service \<Rightarrow>
                qualify_keys namespace keys
                  (AList.update (namespace @ ''.'' @ key) service (AList.delete key config))))"

text \<open>
  \<^verbatim>\<open>base_config.pop('include', {}).iteritems()\<close>: the items of the include
  mapping as they are when the comprehension starts, and the error of calling
  \<^verbatim>\<open>iteritems\<close> on a value that is no dictionary.
\<close>

definition include_items :: "store \<Rightarrow> config \<Rightarrow> error + pydict" where
  "include_items h config =
     (case map_of config ''include'' of
        None \<Rightarrow> Inr []
      | Some a \<Rightarrow> (case h a of PDict items \<Rightarrow> Inr items | _ \<Rightarrow> Inl AttributeError))"

text \<open>\<^verbatim>\<open>parent + '.' + namespace if parent else namespace\<close>\<close>

definition effective_namespace :: "string option \<Rightarrow> string \<Rightarrow> string" where
  "effective_namespace parent namespace =
     (case parent of
        None \<Rightarrow> namespace
      | Some p \<Rightarrow> if p \<noteq> [] then p @ ''.'' @ namespace else namespace)"

text \<open>
  \<^verbatim>\<open>
  def fetch_includes(base_config, cache, parent):
      return [fetch_include(cache, url, parent + '.' + namespace if parent else namespace)
              for namespace, url in base_config.pop('include', {}).iteritems()]

  def fetch_include(cache, url, namespace):
      config = cache.get(normalize_url(url))
      if namespace:
          config = resolve_namespaced_links(config, namespace, config.keys())
      for key in config.keys():
          ...
      configs = fetch_includes(config, cache, None)
      return merge_configs(config, configs)
  \<close>
  The two functions call each other as deep as the include graph goes, and a
  cyclic graph never ends: Python stops at its recursion limit with a
  RuntimeError. \<open>depth\<close> is the number of nested \<^verbatim>\<open>fetch_include\<close> calls still
  allowed. \<open>fetch_each\<close> is the list comprehension. \<^verbatim>\<open>fetch_includes\<close> also
  returns \<open>base_config\<close> as the \<^verbatim>\<open>pop\<close> leaves it, which is what the caller merges
  into. \<open>namespaced_fragment\<close> is \<^verbatim>\<open>fetch_include\<close> up to the end of its renaming
  loop. \<^verbatim>\<open>urlparse\<close> raises on a reference that is no string: TypeError on a
  list or a dictionary (it is not hashable), AttributeError on the others (they
  have no \<^verbatim>\<open>find\<close>).
\<close>

definition namespaced_fragment ::
  "world \<Rightarrow> pydict \<Rightarrow> pyval \<Rightarrow> string \<Rightarrow> state \<Rightarrow> error + (config \<times> state)" where
  "namespaced_fragment w fc ref namespace st =
     (case ref of
        PStr r \<Rightarrow>
          (case ConfigCache_get w fc (normalize_url w r) st of
             Inl e \<Rightarrow> Inl e
           | Inr (config, st1) \<Rightarrow>
               (case (if namespace \<noteq> []
                      then resolve_namespaced_links config namespace (map fst config) (heap st1)
                      else Inr (heap st1)) of
                  Inl e \<Rightarrow> Inl e
                | Inr h \<Rightarrow>
                    (case qualify_keys namespace (map fst config) config of
                       Inl e \<Rightarrow> Inl e
                     | Inr config1 \<Rightarrow> Inr (config1, st1\<lparr>heap := h\<rparr>))))
      | PList xs \<Rightarrow> Inl TypeError
      | PDict kvs \<Rightarrow> Inl TypeError
      | _ \<Rightarrow> Inl AttributeError)"

function fetch_include ::
    "world \<Rightarrow> pydict \<Rightarrow> nat \<Rightarrow> pyval \<Rightarrow> string \<Rightarrow> state \<Rightarrow> error + (config \<times> state)"
  and fetch_includes ::
    "world \<Rightarrow> pydict \<Rightarrow> nat \<Rightarrow> config \<Rightarrow> string option \<Rightarrow> state
       \<Rightarrow> error + (config list \<times> config \<times> state)"
  and fetch_each ::
    "world \<Rightarrow> pydict \<Rightarrow> nat \<Rightarrow> string option \<Rightarrow> pydict \<Rightarrow> state
       \<Rightarrow> error + (config list \<times> state)"
where
  "fetch_include w fc 0 ref namespace st = Inl RuntimeError"
| "fetch_include w fc (Suc depth) ref namespace st =
     (case namespaced_fragment w fc ref namespace st of
        Inl e \<Rightarrow> Inl e
      | Inr (config, st1) \<Rightarrow>
          (case fetch_includes w fc depth config None st1 of
             Inl e \<Rightarrow> Inl e
           | Inr (configs, config', st2) \<Rightarrow> Inr (merge_configs config' configs, st2)))"
| "fetch_includes w fc depth base_config parent st =
     (case include_items (heap st) base_config of
        Inl e \<Rightarrow> Inl e
      | Inr items \<Rightarrow>
          (case fetch_each w fc depth parent items st of
             Inl e \<Rightarrow> Inl e
           | Inr (configs, st') \<Rightarrow> Inr (configs, AList.delete ''include'' base_config, st')))"
| "fetch_each w fc depth parent [] st = Inr ([], st)"
| "fetch_each w fc depth parent ((namespace, ref) # items) st =
     (case fetch_include w fc depth ref (effective_namespace parent namespace) st of
        Inl e \<Rightarrow> Inl e
      | Inr (config, st1) \<Rightarrow>
          (case fetch_each w fc depth parent items st1 of
             Inl e \<Rightarrow> Inl e
           | Inr (configs, st2) \<Rightarrow> Inr (config # configs, st2)))"
  by pat_completeness auto

termination
  by (relation "inv_image (less_than <*lex*> less_than <*lex*> less_than)
        (\<lambda>x. case x of
           Inl (w, fc, depth, ref, namespace, st) \<Rightarrow> (depth, 0::nat, 0::nat)
         | Inr (Inl (w, fc, depth, base_config, parent, st)) \<Rightarrow> (depth, 2, 0)
         | Inr (Inr (w, fc, depth, parent, items, st)) \<Rightarrow> (depth, 1, length items))")
     auto

section \<open>The entry point\<close>

text \<open>
  \<^verbatim>\<open>
  def include(base_config, fetch_config):
      def fetch(url):
          return fetch_external_config(url, fetch_config)
      cache = ConfigCache(fetch)
      base_config.pop('namespace', None)
      return merge_configs(base_config, fetch_includes(base_config, cache, None))
  \<close>
  The function is \<open>include_config\<close> here, \<open>include\<close> being a keyword of Isabelle.
  The base document is parsed by the caller; its values enter the store first.
  The result is the merged top-level dictionary read through the final store.
\<close>

definition initial_state :: state where
  "initial_state = \<lparr>heap = (\<lambda>a. PNone), next_addr = 0, cache = []\<rparr>"

definition include_config :: "world \<Rightarrow> nat \<Rightarrow> pydict \<Rightarrow> pydict \<Rightarrow> error + pydict" where
  "include_config w depth base_config fetch_config =
     (case alloc_config base_config initial_state of
        (base, st) \<Rightarrow>
          (case fetch_includes w fetch_config depth (AList.delete ''namespace'' base) None st of
             Inl e \<Rightarrow> Inl e
           | Inr (configs, base', st') \<Rightarrow> Inr (deref (heap st') (merge_configs base' configs))))"

text \<open>
  Reference rewriting as \<^verbatim>\<open>fetch_include\<close> runs it on a document that has just been
  parsed: \<^verbatim>\<open>resolve_namespaced_links(config, namespace, config.keys())\<close>, read back
  as a document.
\<close>

definition rewrite_references :: "string \<Rightarrow> pydict \<Rightarrow> error + pydict" where
  "rewrite_references namespace doc =
     (case alloc_config doc initial_state of
        (config, st) \<Rightarrow>
          (case resolve_namespaced_links config namespace (map fst config) (heap st) of
             Inl e \<Rightarrow> Inl e
           | Inr h \<Rightarrow> Inr (deref h config)))"

section \<open>A small world for concrete runs\<close>

text \<open>
  Six files beside the base document: \<^verbatim>\<open>./web.yml\<close> has two services, one
  linked to the other; \<^verbatim>\<open>./outer.yml\<close> has a service and includes
  \<^verbatim>\<open>./inner.yml\<close> under the namespace \<open>inner\<close>; \<^verbatim>\<open>./inner.yml\<close> has one service;
  \<^verbatim>\<open>./odd.yml\<close> has an empty include mapping and a service that refers to the
  name \<open>include\<close>; \<^verbatim>\<open>./dotted.yml\<close> has a service whose name has a \<open>'.'\<close>, and
  \<^verbatim>\<open>./plain.yml\<close> a service named as the part after that \<open>'.'\<close>.

  A reference with a \<open>':'\<close> has the text before it as its scheme, and after
  \<open>//\<close> the text up to the next \<open>'/'\<close> as its authority. The directory of a path
  is what \<^verbatim>\<open>posixpath.dirname\<close> returns; changing into the empty directory
  fails, as \<^verbatim>\<open>os.chdir('')\<close> does.
\<close>

definition demo_urlparse :: "string \<Rightarrow> url" where
  "demo_urlparse s =
     (if CHR '':'' \<in> set s
      then (let rest = drop 1 (dropWhile (\<lambda>c. c \<noteq> CHR '':'') s) in
            if take 2 rest = ''//''
            then \<lparr>scheme = takeWhile (\<lambda>c. c \<noteq> CHR '':'') s,
                  netloc = takeWhile (\<lambda>c. c \<noteq> CHR ''/'') (drop 2 rest),
                  path = dropWhile (\<lambda>c. c \<noteq> CHR ''/'') (drop 2 rest),
                  params = [], query = [], fragment = []\<rparr>
            else \<lparr>scheme = takeWhile (\<lambda>c. c \<noteq> CHR '':'') s, netloc = [], path = rest,
                  params = [], query = [], fragment = []\<rparr>)
      else \<lparr>scheme = [], netloc = [], path = s, params = [], query = [], fragment = []\<rparr>)"

definition demo_dirname :: "string \<Rightarrow> string" where
  "demo_dirname p =
     (let head = rev (dropWhile (\<lambda>c. c \<noteq> CHR ''/'') (rev p)) in
      if head \<noteq> [] \<and> \<not> list_all (\<lambda>c. c = CHR ''/'') head
      then rev (dropWhile (\<lambda>c. c = CHR ''/'') (rev head))
      else head)"

definition demo_files :: "string \<Rightarrow> pydict option" where
  "demo_files p =
     (if p = ''./web.yml''
      then Some [(''web'', PDict [(''links'', PList [PStr ''db:db''])]), (''db'', PDict [])]
      else if p = ''./outer.yml''
      then Some [(''a'', PDict []), (''include'', PDict [(''inner'', PStr ''./inner.yml'')])]
      else if p = ''./inner.yml''
      then Some [(''b'', PDict [])]
      else if p = ''./odd.yml''
      then Some [(''web'', PDict [(''links'', PList [PStr ''include:x'']),
                                  (''volumes_from'', PList [PStr ''include:y''])]),
                 (''include'', PDict [])]
      else if p = ''./dotted.yml''
      then Some [(''b.c'', PDict [(''image'', PStr ''one'')])]
      else if p = ''./plain.yml''
      then Some [(''c'', PDict [(''image'', PStr ''two'')])]
      else None)"

definition demo_world :: world where
  "demo_world =
     \<lparr>urlparse = demo_urlparse,
      dirname = demo_dirname,
      abspath = (\<lambda>dir p. ''/abs/'' @ p),
      read_file = (\<lambda>dir p. if dir = [] then Inl OSError
                            else (case demo_files p of
                                    None \<Rightarrow> Inl IOError
                                  | Some doc \<Rightarrow> Inr doc)),
      http_request = (\<lambda>u timeout verify cert proxies. Inl ''unreachable''),
      s3_get_bucket = (\<lambda>bucket. Inl ''unreachable'')\<rparr>"

section \<open>Predicates of the statements\<close>

text \<open>
  The schemes \<^verbatim>\<open>fetch_external_config\<close> has a transport for, and the cache
  holding only locations of such a scheme (it stores a location only after a
  fetch has returned).
\<close>

definition supported_scheme :: "string \<Rightarrow> bool" where
  "supported_scheme s = (s = ''file'' \<or> s = ''http'' \<or> s = ''https'' \<or> s = ''s3'')"

definition cache_supported :: "state \<Rightarrow> bool" where
  "cache_supported st = list_all (\<lambda>uc. supported_scheme (scheme (fst uc))) (cache st)"

text \<open>
  What a loop body leaves at an entry's index: the value it assigns, or the
  entry itself when it continues.
\<close>

definition assigned :: "(pyval \<Rightarrow> error + pyval option) \<Rightarrow> pyval \<Rightarrow> pyval" where
  "assigned body item = (case body item of Inr (Some v) \<Rightarrow> v | _ \<Rightarrow> item)"

text \<open>
  A document reference rewriting returns on: every top-level value is a
  mapping, its \<^verbatim>\<open>links\<close> (when present) a list of strings that each have a
  \<open>':'\<close>, its \<^verbatim>\<open>volumes_from\<close> (when present) a list of strings.
\<close>

definition aliased_links :: "pyval \<Rightarrow> bool" where
  "aliased_links v =
     (case v of
        PList xs \<Rightarrow> list_all (\<lambda>x. case x of PStr s \<Rightarrow> CHR '':'' \<in> set s | _ \<Rightarrow> False) xs
      | _ \<Rightarrow> False)"

definition string_list :: "pyval \<Rightarrow> bool" where
  "string_list v =
     (case v of
        PList xs \<Rightarrow> list_all (\<lambda>x. case x of PStr s \<Rightarrow> True | _ \<Rightarrow> False) xs
      | _ \<Rightarrow> False)"

definition linkable_service :: "pyval \<Rightarrow> bool" where
  "linkable_service v =
     (case v of
        PDict d \<Rightarrow> aliased_links (dict_get ''links'' (PList []) d)
                 \<and> string_list (dict_get ''volumes_from'' (PList []) d)
      | _ \<Rightarrow> False)"

definition linkable_document :: "pydict \<Rightarrow> bool" where
  "linkable_document doc = list_all (\<lambda>kv. linkable_service (snd kv)) doc"






text \<open>
  A name without a \<open>'.'\<close>; a tree whose fragments are dictionaries with such
  keys; and a tree in which moreover no two entries share a namespace and no
  namespace has a \<open>'.'\<close>.
\<close>

definition dot_free :: "string \<Rightarrow> bool" where
  "dot_free s = (CHR ''.'' \<notin> set s)"



section \<open>Properties of dictionaries and of the merge\<close>

lemma map_of_dict_update:
  "distinct (map fst other) \<Longrightarrow> map_of (dict_update d other) = map_of d ++ map_of other"
proof (induction other arbitrary: d)
  case Nil
  then show ?case by (simp add: dict_update_def)
next
  case (Cons kv other)
  have step: "dict_update d (kv # other) = dict_update (AList.update (fst kv) (snd kv) d) other"
    by (simp add: dict_update_def)
  from Cons.prems have d: "distinct (map fst other)" and nk: "fst kv \<notin> fst ` set other"
    by auto
  from nk have nd: "fst kv \<notin> dom (map_of other)"
    by (simp add: dom_map_of_conv_image_fst)
  have upd: "map_of (AList.update (fst kv) (snd kv) d) = (map_of d)(fst kv \<mapsto> snd kv)"
    by (rule update_conv')
  have "map_of (dict_update d (kv # other))
      = (map_of d)(fst kv \<mapsto> snd kv) ++ map_of other"
    unfolding step Cons.IH [OF d] upd ..
  also have "\<dots> = map_of d ++ (map_of other)(fst kv \<mapsto> snd kv)"
    using nd by (metis map_add_upd_left map_add_upd)
  also have "(map_of other)(fst kv \<mapsto> snd kv) = map_of (kv # other)"
    by (cases kv) simp
  finally show ?case .
qed

lemma keys_update: "fst ` set (AList.update k v d) = insert k (fst ` set d)"
proof -
  have "set (map fst (AList.update k v d)) = insert k (set (map fst d))"
    unfolding update_keys by auto
  then show ?thesis by simp
qed

lemma keys_dict_update:
  "fst ` set (dict_update d other) = fst ` set d \<union> fst ` set other"
proof (induction other arbitrary: d)
  case Nil
  then show ?case by (simp add: dict_update_def)
next
  case (Cons kv other)
  have step: "dict_update d (kv # other) = dict_update (AList.update (fst kv) (snd kv) d) other"
    by (simp add: dict_update_def)
  show ?case
    unfolding step Cons.IH keys_update by auto
qed


lemma keys_merge_configs:
  "fst ` set (merge_configs base configs) = fst ` set base \<union> (\<Union>c \<in> set configs. fst ` set c)"
  by (induction configs arbitrary: base) (auto simp: keys_dict_update)


lemma map_of_merge_configs:
  "list_all (\<lambda>f. distinct (map fst f)) fragments \<Longrightarrow>
   map_of (merge_configs base fragments) =
     foldl (\<lambda>acc f. acc ++ map_of f) (map_of base) fragments"
  by (induction fragments arbitrary: base) (simp_all add: map_of_dict_update)

text \<open>
  C7. \<^verbatim>\<open>merge_configs(base, fragments)\<close> overlays the fragments onto the base in list
  order: as a mapping the result is the base overridden by the first fragment,
  then by the second, and so on (\<open>m ++ n\<close> takes \<open>n\<close>'s value wherever \<open>n\<close> has
  the key), so a later fragment wins over an earlier one and every fragment wins
  over the base's own keys. In particular \<open>{x: 1}\<close> merged with
  \<open>[{x: 2}, {y: 3}]\<close> is \<open>{x: 2, y: 3}\<close>. The fragments are dictionaries: their
  keys are distinct.
\<close>

theorem merge_configs_overlay_order:
  assumes "list_all (\<lambda>f. distinct (map fst f)) fragments"
  shows "map_of (merge_configs base fragments) =
           foldl (\<lambda>acc f. acc ++ map_of f) (map_of base) fragments
       \<and> merge_configs [(''x'', 1::int)] [[(''x'', 2)], [(''y'', 3)]] = [(''x'', 2), (''y'', 3)]"
  using map_of_merge_configs [OF assms] by (simp add: dict_update_def)

theorem merge_configs_overlay_order_witness:
  "map_of (merge_configs [(''x'', 1::int)] [[(''x'', 2)], [(''y'', 3)]]) ''x'' = Some 2
 \<and> map_of (merge_configs [(''x'', 1::int)] [[(''x'', 2)], [(''y'', 3)]]) ''y'' = Some 3
 \<and> map_of (merge_configs [(''x'', 1::int)] [[(''x'', 2)], [(''y'', 3)]]) ''z'' = None"
proof -
  have h: "list_all (\<lambda>f. distinct (map fst f)) [[(''x'', 2::int)], [(''y'', 3)]]"
    by simp
  show ?thesis
    using merge_configs_overlay_order [OF h, of "[(''x'', 1)]"] by simp
qed

section \<open>Where the code departs from its description\<close>

text \<open>
  C1. Two \<^verbatim>\<open>get\<close>s of one location return equal top-level dictionaries, but over the
  same service objects as the cached document. Here \<^verbatim>\<open>./web.yml\<close> is fetched twice;
  the second copy reads as the file does. Then reference rewriting, which
  mutates services in place, runs on the \<^emph>\<open>first\<close> copy under the namespace
  \<open>ns\<close>: the second copy and the document stored in the cache now both show the
  link \<open>ns.db:db\<close>. The three components are the second copy before the
  rewriting, the second copy after it, and the cache's stored document after it.
\<close>

theorem cache_copies_share_services:
  "(case ConfigCache_get demo_world [] (normalize_url demo_world ''./web.yml'') initial_state of
      Inl e \<Rightarrow> None
    | Inr (d1, st1) \<Rightarrow>
        (case ConfigCache_get demo_world [] (normalize_url demo_world ''./web.yml'') st1 of
           Inl e \<Rightarrow> None
         | Inr (d2, st2) \<Rightarrow>
             (case resolve_namespaced_links d1 ''ns'' (map fst d1) (heap st2) of
                Inl e \<Rightarrow> None
              | Inr h \<Rightarrow>
                  Some (deref (heap st2) d2, deref h d2,
                        map_option (deref h)
                          (map_of (cache st2) (normalize_url demo_world ''./web.yml'')))))) =
   Some ([(''web'', PDict [(''links'', PList [PStr ''db:db''])]), (''db'', PDict [])],
         [(''web'', PDict [(''links'', PList [PStr ''ns.db:db''])]), (''db'', PDict [])],
         Some [(''web'', PDict [(''links'', PList [PStr ''ns.db:db''])]), (''db'', PDict [])])"
  by code_simp

text \<open>
  The same defect through the entry point: a base document that includes
  \<^verbatim>\<open>./web.yml\<close> under \<open>a\<close> and again under \<open>b\<close> ends with \<open>b.web\<close> linked to
  \<open>a.db\<close>, the name the first inclusion wrote into the shared service.
\<close>

lemma include_one_location_twice:
  "include_config demo_world 5
     [(''app'', PDict []),
      (''include'', PDict [(''a'', PStr ''./web.yml''), (''b'', PStr ''./web.yml'')])] [] =
   Inr [(''app'', PDict []),
        (''a.web'', PDict [(''links'', PList [PStr ''a.db:db''])]),
        (''a.db'', PDict []),
        (''b.web'', PDict [(''links'', PList [PStr ''a.db:db''])]),
        (''b.db'', PDict [])]"
  by code_simp

text \<open>
  C2. A \<^verbatim>\<open>links\<close> entry with no alias (no \<open>':'\<close>) makes reference rewriting raise
  IndexError, although \<open>db\<close> is a local service; the same entry under
  \<^verbatim>\<open>volumes_from\<close> is rewritten to \<open>ns.db\<close>.
\<close>

theorem links_entry_without_alias_raises:
  "rewrite_references ''ns''
     [(''web'', PDict [(''links'', PList [PStr ''db''])]), (''db'', PDict [])] = Inl IndexError
 \<and> rewrite_references ''ns''
     [(''web'', PDict [(''volumes_from'', PList [PStr ''db''])]), (''db'', PDict [])] =
   Inr [(''web'', PDict [(''volumes_from'', PList [PStr ''ns.db''])]), (''db'', PDict [])]"
  by code_simp

text \<open>
  C4. A \<^verbatim>\<open>volumes\<close> entry \<open>h:c:ro\<close> comes out of path normalization as the absolute
  form of \<open>h\<close> followed by \<open>:c\<close>: the container side is cut at the second \<open>':'\<close>
  and \<open>:ro\<close> is lost.
\<close>

theorem volumes_entry_loses_mode:
  "resolve_relative_paths ab [(''web'', PDict [(''volumes'', PList [PStr ''h:c:ro''])])] =
   Inr [(''web'', PDict [(''volumes'', PList [PStr (ab ''h'' @ '':c'')])])]"
  by (simp add: resolve_service_paths_def rewrite_field_def dict_pop_def volume_item_def
      env_item_def)

text \<open>
  C5. A service whose \<^verbatim>\<open>extends\<close> is a mapping with a \<^verbatim>\<open>file\<close> makes path
  normalization raise AttributeError: no document is returned, so no service
  carries an \<^verbatim>\<open>extends\<close> with an absolute file.
\<close>

theorem extends_mapping_raises:
  "resolve_relative_paths ab
     [(''web'', PDict [(''extends'', PDict [(''file'', PStr ''common.yml'')])])] =
   Inl AttributeError"
  by (simp add: resolve_service_paths_def rewrite_field_def dict_pop_def volume_item_def
      env_item_def)

section \<open>Properties of the store and of allocation\<close>

lemma alloc_config_ConsE:
  assumes "alloc_config ((key, v) # doc) st = (cfg, st')"
  obtains cfg1 where
    "alloc_config doc
       (st\<lparr>heap := (heap st)(next_addr st := v), next_addr := Suc (next_addr st)\<rparr>) = (cfg1, st')"
    and "cfg = (key, next_addr st) # cfg1"
  using assms by (auto split: prod.splits)

lemma alloc_config_basic:
  "alloc_config doc st = (cfg, st') \<Longrightarrow>
     map fst cfg = map fst doc \<and> next_addr st' = next_addr st + length doc \<and> cache st' = cache st"
proof (induction doc arbitrary: st cfg)
  case Nil
  then show ?case by simp
next
  case (Cons kv doc)
  obtain key v where kv: "kv = (key, v)" by (cases kv)
  from Cons.prems obtain cfg1 where
    rec: "alloc_config doc
       (st\<lparr>heap := (heap st)(next_addr st := v), next_addr := Suc (next_addr st)\<rparr>) = (cfg1, st')"
    and cfg: "cfg = (key, next_addr st) # cfg1"
    unfolding kv by (rule alloc_config_ConsE)
  from Cons.IH [OF rec] show ?case by (simp add: cfg kv)
qed

lemma alloc_config_addrs:
  "alloc_config doc st = (cfg, st') \<Longrightarrow> map snd cfg = [next_addr st ..< next_addr st + length doc]"
proof (induction doc arbitrary: st cfg)
  case Nil
  then show ?case by simp
next
  case (Cons kv doc)
  obtain key v where kv: "kv = (key, v)" by (cases kv)
  from Cons.prems obtain cfg1 where
    rec: "alloc_config doc
       (st\<lparr>heap := (heap st)(next_addr st := v), next_addr := Suc (next_addr st)\<rparr>) = (cfg1, st')"
    and cfg: "cfg = (key, next_addr st) # cfg1"
    unfolding kv by (rule alloc_config_ConsE)
  have e: "next_addr st + length (kv # doc) = Suc (next_addr st) + length doc" by simp
  have u: "[next_addr st ..< Suc (next_addr st) + length doc]
      = next_addr st # [Suc (next_addr st) ..< Suc (next_addr st) + length doc]"
    by (rule upt_conv_Cons) simp
  have ih: "map snd cfg1 = [Suc (next_addr st) ..< Suc (next_addr st) + length doc]"
    using Cons.IH [OF rec] by simp
  show ?case unfolding cfg e u by (simp only: list.map snd_conv ih)
qed

lemma alloc_config_frame:
  "alloc_config doc st = (cfg, st') \<Longrightarrow> a < next_addr st \<Longrightarrow> heap st' a = heap st a"
proof (induction doc arbitrary: st cfg)
  case Nil
  then show ?case by simp
next
  case (Cons kv doc)
  obtain key v where kv: "kv = (key, v)" by (cases kv)
  from Cons.prems(1) obtain cfg1 where
    rec: "alloc_config doc
       (st\<lparr>heap := (heap st)(next_addr st := v), next_addr := Suc (next_addr st)\<rparr>) = (cfg1, st')"
    and cfg: "cfg = (key, next_addr st) # cfg1"
    unfolding kv by (rule alloc_config_ConsE)
  from Cons.IH [OF rec, of] Cons.prems(2) show ?case by simp
qed

lemma alloc_config_deref:
  "alloc_config doc st = (cfg, st') \<Longrightarrow> deref (heap st') cfg = doc"
proof (induction doc arbitrary: st cfg)
  case Nil
  then show ?case by (simp add: deref_def)
next
  case (Cons kv doc)
  obtain key v where kv: "kv = (key, v)" by (cases kv)
  from Cons.prems(1) obtain cfg1 where
    rec: "alloc_config doc
       (st\<lparr>heap := (heap st)(next_addr st := v), next_addr := Suc (next_addr st)\<rparr>) = (cfg1, st')"
    and cfg: "cfg = (key, next_addr st) # cfg1"
    unfolding kv by (rule alloc_config_ConsE)
  have "heap st' (next_addr st) = v"
    using alloc_config_frame [OF rec, of "next_addr st"] by simp
  moreover have "deref (heap st') cfg1 = doc" by (rule Cons.IH [OF rec])
  ultimately show ?case by (simp add: cfg kv deref_def)
qed

lemma alloc_config_distinct: "alloc_config doc st = (cfg, st') \<Longrightarrow> distinct (map snd cfg)"
  by (simp add: alloc_config_addrs)


lemma map_of_deref: "map_of (deref h cfg) k = map_option h (map_of cfg k)"
  by (induction cfg) (auto simp: deref_def)

lemma keys_delete: "fst ` set (AList.delete k d) = fst ` set d - {k}"
proof -
  have "set (map fst (AList.delete k d)) = set (map fst d) - {k}"
    unfolding delete_keys by simp
  then show ?thesis by simp
qed

section \<open>The resolved document\<close>

text \<open>
  Whatever the resolver returns has no \<open>include\<close> key: the fragment's own is
  popped by \<^verbatim>\<open>fetch_includes\<close>, and the fragments merged into it have none.
\<close>

lemma fetch_no_include_key:
  shows "\<And>d st'. fetch_include w fc depth ref namespace st = Inr (d, st') \<Longrightarrow>
           ''include'' \<notin> fst ` set d"
    and "\<And>ds base' st'.
           fetch_includes w fc depth base_config parent st = Inr (ds, base', st') \<Longrightarrow>
           base' = AList.delete ''include'' base_config
         \<and> (\<forall>c \<in> set ds. ''include'' \<notin> fst ` set c)"
    and "\<And>ds st'. fetch_each w fc depth parent items st = Inr (ds, st') \<Longrightarrow>
           (\<forall>c \<in> set ds. ''include'' \<notin> fst ` set c)"
proof (induction w fc depth ref namespace st and w fc depth base_config parent st
         and w fc depth parent items st rule: fetch_include_fetch_includes_fetch_each.induct)
  case (1 w fc ref namespace st)
  then show ?case by simp
next
  case (2 w fc depth ref namespace st)
  from "2.prems" obtain config st1 configs config' where
    nf: "namespaced_fragment w fc ref namespace st = Inr (config, st1)" and
    fi: "fetch_includes w fc depth config None st1 = Inr (configs, config', st')" and
    d: "d = merge_configs config' configs"
    by (auto split: sum.splits prod.splits)
  from "2.IH" [OF nf refl fi] have "config' = AList.delete ''include'' config"
    and "\<forall>c \<in> set configs. ''include'' \<notin> fst ` set c" by auto
  then show ?case unfolding d keys_merge_configs by (auto simp: keys_delete)
next
  case (3 w fc depth base_config parent st)
  from "3.prems" obtain items where
    it: "include_items (heap st) base_config = Inr items" and
    fe: "fetch_each w fc depth parent items st = Inr (ds, st')" and
    b: "base' = AList.delete ''include'' base_config"
    by (auto split: sum.splits prod.splits)
  from "3.IH" [OF it fe] b show ?case by simp
next
  case (4 w fc depth parent st)
  then show ?case by auto
next
  case (5 w fc depth parent namespace ref items st)
  from "5.prems" obtain config st1 configs where
    fi: "fetch_include w fc depth ref (effective_namespace parent namespace) st
           = Inr (config, st1)" and
    fe: "fetch_each w fc depth parent items st1 = Inr (configs, st')" and
    ds: "ds = config # configs"
    by (auto split: sum.splits prod.splits)
  from "5.IH"(1) [OF fi] "5.IH"(2) [OF fi refl fe] show ?case unfolding ds by simp
qed

section \<open>Unsupported schemes\<close>

text \<open>
  A location with no transport is never in the cache, so resolving it always
  reaches the dispatch of \<^verbatim>\<open>fetch_external_config\<close> and raises there.
\<close>

lemma fetch_external_config_unsupported:
  "\<not> supported_scheme (scheme u) \<Longrightarrow>
   fetch_external_config w u fc = Inl (ConfigError (scheme u) u)"
  by (simp add: fetch_external_config_def supported_scheme_def)

lemma cache_supported_miss:
  assumes "cache_supported st" and "\<not> supported_scheme (scheme u)"
  shows "map_of (cache st) u = None"
proof -
  have "u \<notin> fst ` set (cache st)"
    using assms by (auto simp: cache_supported_def list_all_iff)
  then show ?thesis by (simp add: map_of_eq_None_iff)
qed

lemma ConfigCache_get_unsupported:
  assumes "cache_supported st" and "\<not> supported_scheme (scheme u)"
  shows "ConfigCache_get w fc u st = Inl (ConfigError (scheme u) u)"
  using cache_supported_miss [OF assms] fetch_external_config_unsupported [OF assms(2)]
  by (simp add: ConfigCache_get_def)

lemma ConfigCache_get_supported:
  assumes "ConfigCache_get w fc u st = Inr (c, st')" and "cache_supported st"
  shows "cache_supported st'"
proof (cases "map_of (cache st) u")
  case (Some c0)
  with assms show ?thesis by (simp add: ConfigCache_get_def)
next
  case None
  with assms(1) obtain doc st1 where
    f: "fetch_external_config w u fc = Inr doc" and
    al: "alloc_config doc st = (c, st1)" and
    st': "st' = st1\<lparr>cache := (u, c) # cache st1\<rparr>"
    by (auto simp: ConfigCache_get_def split: sum.splits prod.splits)
  have "supported_scheme (scheme u)"
    using f fetch_external_config_unsupported [of u w fc] by auto
  moreover have "cache st1 = cache st" using alloc_config_basic [OF al] by simp
  ultimately show ?thesis using assms(2) by (simp add: st' cache_supported_def)
qed

lemma namespaced_fragment_supported:
  assumes "namespaced_fragment w fc ref namespace st = Inr (c, st')" and "cache_supported st"
  shows "cache_supported st'"
proof -
  from assms(1) obtain r c0 st1 h where
    g: "ConfigCache_get w fc (normalize_url w r) st = Inr (c0, st1)" and
    st': "st' = st1\<lparr>heap := h\<rparr>"
    by (auto simp: namespaced_fragment_def split: pyval.splits sum.splits prod.splits if_splits)
  from ConfigCache_get_supported [OF g assms(2)] show ?thesis
    by (simp add: st' cache_supported_def)
qed

lemma fetch_supported:
  shows "\<And>d st'. fetch_include w fc depth ref namespace st = Inr (d, st') \<Longrightarrow>
           cache_supported st \<Longrightarrow> cache_supported st'"
    and "\<And>ds base' st'.
           fetch_includes w fc depth base_config parent st = Inr (ds, base', st') \<Longrightarrow>
           cache_supported st \<Longrightarrow> cache_supported st'"
    and "\<And>ds st'. fetch_each w fc depth parent items st = Inr (ds, st') \<Longrightarrow>
           cache_supported st \<Longrightarrow> cache_supported st'"
proof (induction w fc depth ref namespace st and w fc depth base_config parent st
         and w fc depth parent items st rule: fetch_include_fetch_includes_fetch_each.induct)
  case (1 w fc ref namespace st)
  then show ?case by simp
next
  case (2 w fc depth ref namespace st)
  from "2.prems"(1) obtain config st1 configs config' where
    nf: "namespaced_fragment w fc ref namespace st = Inr (config, st1)" and
    fi: "fetch_includes w fc depth config None st1 = Inr (configs, config', st')"
    by (auto split: sum.splits prod.splits)
  from namespaced_fragment_supported [OF nf "2.prems"(2)] "2.IH" [OF nf refl fi]
  show ?case by simp
next
  case (3 w fc depth base_config parent st)
  from "3.prems"(1) obtain items where
    it: "include_items (heap st) base_config = Inr items" and
    fe: "fetch_each w fc depth parent items st = Inr (ds, st')"
    by (auto split: sum.splits prod.splits)
  from "3.IH" [OF it fe "3.prems"(2)] show ?case .
next
  case (4 w fc depth parent st)
  then show ?case by auto
next
  case (5 w fc depth parent namespace ref items st)
  from "5.prems"(1) obtain config st1 configs where
    fi: "fetch_include w fc depth ref (effective_namespace parent namespace) st
           = Inr (config, st1)" and
    fe: "fetch_each w fc depth parent items st1 = Inr (configs, st')"
    by (auto split: sum.splits prod.splits)
  from "5.IH"(1) [OF fi "5.prems"(2)] have "cache_supported st1" .
  from "5.IH"(2) [OF fi refl fe this] show ?case .
qed

lemma fetch_include_unsupported:
  assumes "cache_supported st" and "\<not> supported_scheme (scheme (normalize_url w r))"
  shows "fetch_include w fc (Suc depth) (PStr r) namespace st =
           Inl (ConfigError (scheme (normalize_url w r)) (normalize_url w r))"
  using ConfigCache_get_unsupported [OF assms]
  by (simp add: namespaced_fragment_def)

lemma fetch_each_unsupported:
  assumes "\<not> supported_scheme (scheme (normalize_url w r))"
  shows "cache_supported st \<Longrightarrow> (ns, PStr r) \<in> set items \<Longrightarrow>
         \<exists>e. fetch_each w fc depth parent items st = Inl e"
proof (induction items arbitrary: st)
  case Nil
  then show ?case by simp
next
  case (Cons item items)
  obtain namespace ref where item: "item = (namespace, ref)" by (cases item)
  show ?case
  proof (cases "fetch_include w fc depth ref (effective_namespace parent namespace) st")
    case (Inl e)
    then show ?thesis by (simp add: item)
  next
    case (Inr res)
    obtain config st1 where res: "res = (config, st1)" by (cases res)
    have ne: "item \<noteq> (ns, PStr r)"
    proof
      assume "item = (ns, PStr r)"
      then have ref: "ref = PStr r" using item by simp
      show False
      proof (cases depth)
        case 0
        with Inr show False by simp
      next
        case (Suc n)
        with Inr fetch_include_unsupported [OF Cons.prems(1) assms] ref show False by simp
      qed
    qed
    with Cons.prems(2) have mem: "(ns, PStr r) \<in> set items" by simp
    from fetch_supported(1) [OF Inr [unfolded res] Cons.prems(1)] have "cache_supported st1" .
    from Cons.IH [OF this mem] obtain e where
      "fetch_each w fc depth parent items st1 = Inl e" ..
    with Inr res show ?thesis by (simp add: item)
  qed
qed


lemma include_items_of_base:
  assumes al: "alloc_config base initial_state = (cfg, st)"
      and inc: "map_of base ''include'' = Some (PDict items)"
  shows "include_items (heap st) (AList.delete ''namespace'' cfg) = Inr items"
proof -
  have "map_of base ''include'' = map_option (heap st) (map_of cfg ''include'')"
    using alloc_config_deref [OF al] map_of_deref [of "heap st" cfg "''include''"] by simp
  with inc obtain a where a: "map_of cfg ''include'' = Some a" and h: "heap st a = PDict items"
    by auto
  have "map_of (AList.delete ''namespace'' cfg) ''include'' = Some a"
    using a by (simp add: delete_conv)
  with h show ?thesis by (simp add: include_items_def)
qed

lemma cache_supported_alloc_initial:
  "alloc_config base initial_state = (cfg, st) \<Longrightarrow> cache_supported st"
  using alloc_config_basic [of base initial_state cfg st]
  by (simp add: cache_supported_def initial_state_def)

text \<open>
  C9. Let the normalized scheme of a reference be none of \<open>file\<close>, \<open>http\<close>,
  \<open>https\<close>, \<open>s3\<close>. Resolving it (from any state whose cache holds fetched
  locations only, with recursion depth left for the call) raises the
  unsupported-scheme error, which carries the scheme and the located reference.
  A base document whose include mapping has the reference anywhere yields no
  document, at any depth; when it is the first entry the error \<^verbatim>\<open>include\<close>
  raises is that unsupported-scheme error.
\<close>

theorem unsupported_scheme_aborts:
  assumes bad: "\<not> supported_scheme (scheme (normalize_url w r))"
  shows "(cache_supported st \<longrightarrow>
            fetch_include w fc (Suc depth) (PStr r) namespace st =
              Inl (ConfigError (scheme (normalize_url w r)) (normalize_url w r)))
       \<and> (map_of base ''include'' = Some (PDict items) \<and> (ns, PStr r) \<in> set items \<longrightarrow>
            (\<exists>e. include_config w depth' base fc = Inl e))
       \<and> (map_of base ''include'' = Some (PDict ((ns, PStr r) # rest)) \<longrightarrow>
            include_config w (Suc depth) base fc =
              Inl (ConfigError (scheme (normalize_url w r)) (normalize_url w r)))"
proof (intro conjI impI)
  assume "cache_supported st"
  then show "fetch_include w fc (Suc depth) (PStr r) namespace st =
      Inl (ConfigError (scheme (normalize_url w r)) (normalize_url w r))"
    using bad by (rule fetch_include_unsupported)
next
  assume a: "map_of base ''include'' = Some (PDict items) \<and> (ns, PStr r) \<in> set items"
  obtain cfg st0 where al: "alloc_config base initial_state = (cfg, st0)"
    by (cases "alloc_config base initial_state")
  have it: "include_items (heap st0) (AList.delete ''namespace'' cfg) = Inr items"
    using al a by (simp add: include_items_of_base)
  from fetch_each_unsupported [OF bad cache_supported_alloc_initial [OF al], of ns items fc depth' None]
    a obtain e where "fetch_each w fc depth' None items st0 = Inl e" by auto
  with al it have "include_config w depth' base fc = Inl e"
    by (simp add: include_config_def)
  then show "\<exists>e. include_config w depth' base fc = Inl e" ..
next
  assume a: "map_of base ''include'' = Some (PDict ((ns, PStr r) # rest))"
  obtain cfg st0 where al: "alloc_config base initial_state = (cfg, st0)"
    by (cases "alloc_config base initial_state")
  have it: "include_items (heap st0) (AList.delete ''namespace'' cfg)
              = Inr ((ns, PStr r) # rest)"
    using al a by (rule include_items_of_base)
  have "fetch_include w fc (Suc depth) (PStr r) ns st0 =
      Inl (ConfigError (scheme (normalize_url w r)) (normalize_url w r))"
    using cache_supported_alloc_initial [OF al] bad by (rule fetch_include_unsupported)
  with al it show "include_config w (Suc depth) base fc =
      Inl (ConfigError (scheme (normalize_url w r)) (normalize_url w r))"
    by (simp add: include_config_def effective_namespace_def del: fetch_include.simps)
qed

theorem unsupported_scheme_aborts_witness:
  "\<not> supported_scheme (scheme (normalize_url demo_world ''ftp://host/file.yml''))
 \<and> cache_supported initial_state
 \<and> fetch_include demo_world [] (Suc 0) (PStr ''ftp://host/file.yml'') ''x'' initial_state =
     Inl (ConfigError ''ftp''
           \<lparr>scheme = ''ftp'', netloc = ''host'', path = ''/file.yml'',
              params = [], query = [], fragment = []\<rparr>)
 \<and> (\<exists>e. include_config demo_world 5
        [(''web'', PDict []),
         (''include'', PDict [(''w'', PStr ''./web.yml''), (''x'', PStr ''ftp://host/file.yml'')])]
        [] = Inl e)
 \<and> include_config demo_world 5
      [(''web'', PDict []), (''include'', PDict [(''x'', PStr ''ftp://host/file.yml'')])] [] =
     Inl (ConfigError ''ftp''
           \<lparr>scheme = ''ftp'', netloc = ''host'', path = ''/file.yml'',
              params = [], query = [], fragment = []\<rparr>)"
proof -
  have u: "normalize_url demo_world ''ftp://host/file.yml'' =
      \<lparr>scheme = ''ftp'', netloc = ''host'', path = ''/file.yml'',
         params = [], query = [], fragment = []\<rparr>"
    by (simp add: normalize_url_def demo_world_def demo_urlparse_def)
  have bad: "\<not> supported_scheme (scheme (normalize_url demo_world ''ftp://host/file.yml''))"
    unfolding u by (simp add: supported_scheme_def)
  have ok: "cache_supported initial_state"
    by (simp add: cache_supported_def initial_state_def)
  note t = unsupported_scheme_aborts [OF bad]
  have 1: "fetch_include demo_world [] (Suc 0) (PStr ''ftp://host/file.yml'') ''x'' initial_state =
     Inl (ConfigError ''ftp''
           \<lparr>scheme = ''ftp'', netloc = ''host'', path = ''/file.yml'',
              params = [], query = [], fragment = []\<rparr>)"
    using t [where st = initial_state and fc = "[]" and depth = 0 and namespace = "''x''"] ok
    unfolding u by simp
  have 2: "\<exists>e. include_config demo_world 5
        [(''web'', PDict []),
         (''include'', PDict [(''w'', PStr ''./web.yml''), (''x'', PStr ''ftp://host/file.yml'')])]
        [] = Inl e"
    using t [where base = "[(''web'', PDict []),
         (''include'', PDict [(''w'', PStr ''./web.yml''), (''x'', PStr ''ftp://host/file.yml'')])]"
         and items = "[(''w'', PStr ''./web.yml''), (''x'', PStr ''ftp://host/file.yml'')]"
         and ns = "''x''" and depth' = 5 and fc = "[]"]
    by simp
  have 3: "include_config demo_world 5
      [(''web'', PDict []), (''include'', PDict [(''x'', PStr ''ftp://host/file.yml'')])] [] =
     Inl (ConfigError ''ftp''
           \<lparr>scheme = ''ftp'', netloc = ''host'', path = ''/file.yml'',
              params = [], query = [], fragment = []\<rparr>)"
    using t [where base = "[(''web'', PDict []),
         (''include'', PDict [(''x'', PStr ''ftp://host/file.yml'')])]"
         and ns = "''x''" and rest = "[]" and depth = 4 and fc = "[]"]
    unfolding u by (simp add: numeral_eq_Suc)
  from bad ok 1 2 3 show ?thesis by blast
qed

section \<open>Reference rewriting\<close>

lemma split_on_nonempty: "split_on c s \<noteq> []"
  by (induction s) (auto split: list.splits)

lemma split_on_no_sep: "c \<notin> set s \<Longrightarrow> split_on c s = [s]"
  by (induction s) auto

lemma split_on_sep: "c \<notin> set a \<Longrightarrow> split_on c (a @ c # rest) = a # split_on c rest"
  by (induction a) auto

lemma link_item_local:
  assumes "CHR '':'' \<notin> set a" and "CHR '':'' \<notin> set alias" and "alias \<noteq> []"
      and "a \<in> set servicekeys" and "namespace \<noteq> []"
  shows "link_item namespace servicekeys (PStr (a @ '':'' @ alias)) =
           Inr (Some (PStr (namespace @ ''.'' @ a @ '':'' @ alias)))"
  using assms by (simp add: link_item_def split_on_sep split_on_no_sep)

lemma link_item_foreign:
  assumes "CHR '':'' \<notin> set c" and "c \<notin> set servicekeys"
  shows "link_item namespace servicekeys (PStr (c @ '':'' @ rest)) = Inr None"
proof -
  obtain p ps where "split_on CHR '':'' rest = p # ps"
    using split_on_nonempty [of "CHR '':''" rest] by (cases "split_on CHR '':'' rest") auto
  with assms show ?thesis by (simp add: link_item_def split_on_sep)
qed

lemma volumes_from_item_local:
  assumes "CHR '':'' \<notin> set a" and "CHR '':'' \<notin> set alias" and "alias \<noteq> []"
      and "a \<in> set servicekeys" and "namespace \<noteq> []"
  shows "volumes_from_item namespace servicekeys (PStr (a @ '':'' @ alias)) =
           Inr (Some (PStr (namespace @ ''.'' @ a @ '':'' @ alias)))"
  using assms by (simp add: volumes_from_item_def split_on_sep split_on_no_sep)

lemma enumerate_assign_list:
  "enumerate_assign body (length pre) items (PList (pre @ items @ post)) = Inr r \<Longrightarrow>
   r = PList (pre @ map (assigned body) items @ post)"
proof (induction items arbitrary: pre)
  case Nil
  then show ?case by simp
next
  case (Cons x items)
  show ?case
  proof (cases "body x")
    case (Inl e)
    with Cons.prems show ?thesis by simp
  next
    case (Inr res)
    show ?thesis
    proof (cases res)
      case None
      with Inr Cons.prems have
        "enumerate_assign body (length (pre @ [x])) items (PList ((pre @ [x]) @ items @ post)) = Inr r"
        by simp
      from Cons.IH [OF this] show ?thesis using Inr None by (simp add: assigned_def)
    next
      case (Some v)
      have "(pre @ x # items @ post)[length pre := v] = pre @ v # items @ post"
        by (simp add: list_update_append)
      with Inr Some Cons.prems have
        "enumerate_assign body (length (pre @ [v])) items (PList ((pre @ [v]) @ items @ post)) = Inr r"
        by simp
      from Cons.IH [OF this] show ?thesis using Inr Some by (simp add: assigned_def)
    qed
  qed
qed

lemma enumerate_assign_whole:
  assumes "enumerate_assign body 0 xs (PList xs) = Inr r"
  shows "r = PList (map (assigned body) xs)"
  using enumerate_assign_list [of body "[]" xs "[]" r] assms by simp

lemma rewrite_field_other:
  assumes "rewrite_field f body d = Inr d'" and "g \<noteq> f"
  shows "map_of d' g = map_of d g"
  using assms
  by (auto simp: rewrite_field_def dict_pop_def update_conv' delete_conv'
      split: option.splits sum.splits if_splits)

lemma rewrite_field_list:
  assumes "rewrite_field f body d = Inr d'" and "map_of d f = Some (PList ls)" and "ls \<noteq> []"
  shows "map_of d' f = Some (PList (map (assigned body) ls))"
proof -
  from assms(1,2) obtain r where
    e: "enumerate_assign body 0 ls (PList ls) = Inr r" and
    d': "d' = (if py_len r > 0 then AList.update f r (AList.delete f d) else AList.delete f d)"
    by (auto simp: rewrite_field_def dict_pop_def split: sum.splits)
  from enumerate_assign_whole [OF e] have r: "r = PList (map (assigned body) ls)" .
  with assms(3) d' show ?thesis by (simp add: update_conv')
qed

lemma resolve_service_links_dict:
  assumes "resolve_service_links namespace servicekeys (PDict d) = Inr v'"
  obtains d1 d2 where
    "rewrite_field ''links'' (link_item namespace servicekeys) d = Inr d1"
    "rewrite_field ''volumes_from'' (volumes_from_item namespace servicekeys) d1 = Inr d2"
    "v' = PDict d2"
  using assms by (auto simp: resolve_service_links_def split: sum.splits)

lemma resolve_service_links_links:
  assumes r: "resolve_service_links namespace servicekeys (PDict d) = Inr v'"
      and f: "map_of d ''links'' = Some (PList ls)" and ne: "ls \<noteq> []"
  shows "\<exists>d'. v' = PDict d' \<and>
           map_of d' ''links'' = Some (PList (map (assigned (link_item namespace servicekeys)) ls))"
proof -
  from r obtain d1 d2 where
    1: "rewrite_field ''links'' (link_item namespace servicekeys) d = Inr d1" and
    2: "rewrite_field ''volumes_from'' (volumes_from_item namespace servicekeys) d1 = Inr d2" and
    v': "v' = PDict d2"
    by (rule resolve_service_links_dict)
  have "map_of d2 ''links'' = map_of d1 ''links''"
    using 2 by (rule rewrite_field_other) simp
  also have "\<dots> = Some (PList (map (assigned (link_item namespace servicekeys)) ls))"
    using 1 f ne by (rule rewrite_field_list)
  finally show ?thesis using v' by simp
qed

lemma resolve_service_links_volumes_from:
  assumes r: "resolve_service_links namespace servicekeys (PDict d) = Inr v'"
      and f: "map_of d ''volumes_from'' = Some (PList ls)" and ne: "ls \<noteq> []"
  shows "\<exists>d'. v' = PDict d' \<and>
           map_of d' ''volumes_from'' =
             Some (PList (map (assigned (volumes_from_item namespace servicekeys)) ls))"
proof -
  from r obtain d1 d2 where
    1: "rewrite_field ''links'' (link_item namespace servicekeys) d = Inr d1" and
    2: "rewrite_field ''volumes_from'' (volumes_from_item namespace servicekeys) d1 = Inr d2" and
    v': "v' = PDict d2"
    by (rule resolve_service_links_dict)
  have "map_of d1 ''volumes_from'' = map_of d ''volumes_from''"
    using 1 by (rule rewrite_field_other) simp
  with f have "map_of d1 ''volumes_from'' = Some (PList ls)" by simp
  with 2 have "map_of d2 ''volumes_from'' =
      Some (PList (map (assigned (volumes_from_item namespace servicekeys)) ls))"
    using ne by (rule rewrite_field_list)
  then show ?thesis using v' by simp
qed

lemma resolve_namespaced_links_each:
  "resolve_namespaced_links config namespace servicekeys h = Inr h' \<Longrightarrow>
   distinct (map snd config) \<Longrightarrow> fst ` set config \<subseteq> set servicekeys \<Longrightarrow>
     (\<forall>ka \<in> set config. resolve_service_links namespace servicekeys (h (snd ka)) = Inr (h' (snd ka)))
   \<and> (\<forall>a. a \<notin> snd ` set config \<longrightarrow> h' a = h a)"
proof (induction config arbitrary: h)
  case Nil
  then show ?case by simp
next
  case (Cons ka config)
  obtain key a where ka: "ka = (key, a)" by (cases ka)
  from Cons.prems(3) have key: "key \<in> set servicekeys"
    and sub: "fst ` set config \<subseteq> set servicekeys" by (auto simp: ka)
  from Cons.prems(2) have fresh: "a \<notin> snd ` set config" and dist: "distinct (map snd config)"
    by (auto simp: ka)
  from Cons.prems(1) key obtain service where
    s: "resolve_service_links namespace servicekeys (h a) = Inr service" and
    rec: "resolve_namespaced_links config namespace servicekeys (h(a := service)) = Inr h'"
    by (auto simp: ka split: sum.splits)
  from Cons.IH [OF rec dist sub] have
    each: "\<forall>kb \<in> set config.
             resolve_service_links namespace servicekeys ((h(a := service)) (snd kb))
               = Inr (h' (snd kb))" and
    frame: "\<forall>b. b \<notin> snd ` set config \<longrightarrow> h' b = (h(a := service)) b"
    by simp_all
  from frame fresh have ha: "h' a = service" by simp
  have "\<forall>kb \<in> set config.
          resolve_service_links namespace servicekeys (h (snd kb)) = Inr (h' (snd kb))"
  proof
    fix kb assume kb: "kb \<in> set config"
    with fresh have "snd kb \<noteq> a" by auto
    with each kb show
      "resolve_service_links namespace servicekeys (h (snd kb)) = Inr (h' (snd kb))"
      by auto
  qed
  moreover have "\<forall>b. b \<notin> snd ` set (ka # config) \<longrightarrow> h' b = h b"
    using frame by (auto simp: ka)
  ultimately show ?case using s ha by (simp add: ka)
qed

lemma rewrite_references_each:
  assumes "rewrite_references namespace doc = Inr doc'"
  shows "list_all2 (\<lambda>kv kv'. fst kv' = fst kv
            \<and> resolve_service_links namespace (map fst doc) (snd kv) = Inr (snd kv')) doc doc'"
proof -
  obtain config st where al: "alloc_config doc initial_state = (config, st)"
    by (cases "alloc_config doc initial_state")
  from assms al obtain h where
    r: "resolve_namespaced_links config namespace (map fst config) (heap st) = Inr h" and
    doc': "doc' = deref h config"
    by (auto simp: rewrite_references_def split: sum.splits)
  have keys: "map fst config = map fst doc" using alloc_config_basic [OF al] by simp
  have "fst ` set config \<subseteq> set (map fst config)" by auto
  with resolve_namespaced_links_each [OF r alloc_config_distinct [OF al]]
  have each: "\<forall>ka \<in> set config.
      resolve_service_links namespace (map fst doc) (heap st (snd ka)) = Inr (h (snd ka))"
    unfolding keys by simp
  have "list_all2 (\<lambda>kv kv'. fst kv' = fst kv
            \<and> resolve_service_links namespace (map fst doc) (snd kv) = Inr (snd kv'))
          (deref (heap st) config) (deref h config)"
    using each by (simp add: deref_def list_all2_map1 list_all2_map2 list_all2_same)
  then show ?thesis
    unfolding doc' alloc_config_deref [OF al] .
qed

lemma list_all2_map_of:
  assumes "list_all2 (\<lambda>kv kv'. fst kv' = fst kv \<and> R (snd kv) (snd kv')) xs ys"
      and "map_of xs k = Some v"
  shows "\<exists>v'. map_of ys k = Some v' \<and> R v v'"
  using assms by (induction xs ys rule: list_all2_induct) (auto split: if_splits)

lemma rewrite_references_service:
  assumes "rewrite_references namespace doc = Inr doc'" and "map_of doc s = Some v"
  shows "\<exists>v'. map_of doc' s = Some v'
           \<and> resolve_service_links namespace (map fst doc) v = Inr v'"
  using list_all2_map_of [OF rewrite_references_each [OF assms(1)] assms(2)] .

text \<open>Reference rewriting returns on a linkable document.\<close>

lemma split_on_two: "c \<in> set s \<Longrightarrow> \<exists>p q r. split_on c s = p # q # r"
proof (induction s)
  case Nil
  then show ?case by simp
next
  case (Cons x xs)
  show ?case
  proof (cases "x = c")
    case True
    obtain q r where "split_on c xs = q # r"
      using split_on_nonempty [of c xs] by (cases "split_on c xs") auto
    with True show ?thesis by simp
  next
    case False
    with Cons.prems have "c \<in> set xs" by simp
    from Cons.IH [OF this] obtain p q r where "split_on c xs = p # q # r" by blast
    with False show ?thesis by simp
  qed
qed

lemma link_item_returns:
  assumes "CHR '':'' \<in> set s"
  shows "\<exists>r. link_item namespace servicekeys (PStr s) = Inr r"
proof -
  from split_on_two [OF assms] obtain p q r where "split_on CHR '':'' s = p # q # r" by blast
  then show ?thesis by (simp add: link_item_def Let_def)
qed

lemma volumes_from_item_returns:
  "\<exists>r. volumes_from_item namespace servicekeys (PStr s) = Inr r"
proof -
  obtain p ps where "split_on CHR '':'' s = p # ps"
    using split_on_nonempty [of "CHR '':''" s] by (cases "split_on CHR '':'' s") auto
  then show ?thesis by (simp add: volumes_from_item_def Let_def split: list.splits)
qed

lemma enumerate_assign_returns:
  "list_all (\<lambda>x. \<exists>r. body x = Inr r) items \<Longrightarrow>
   \<exists>r. enumerate_assign body (length pre) items (PList (pre @ items @ post)) = Inr r"
proof (induction items arbitrary: pre)
  case Nil
  then show ?case by simp
next
  case (Cons x items)
  from Cons.prems obtain res where res: "body x = Inr res"
    and rest: "list_all (\<lambda>x. \<exists>r. body x = Inr r) items" by auto
  show ?case
  proof (cases res)
    case None
    from Cons.IH [OF rest, of "pre @ [x]"] show ?thesis using res None by simp
  next
    case (Some v)
    have "(pre @ x # items @ post)[length pre := v] = pre @ v # items @ post"
      by (simp add: list_update_append)
    with Cons.IH [OF rest, of "pre @ [v]"] show ?thesis using res Some by simp
  qed
qed

lemma rewrite_field_returns:
  assumes "dict_get f (PList []) d = PList xs"
      and "list_all (\<lambda>x. \<exists>r. body x = Inr r) xs"
  shows "\<exists>d'. rewrite_field f body d = Inr d'"
proof -
  have pop: "fst (dict_pop f (PList []) d) = PList xs"
    using assms(1) by (simp add: dict_pop_def dict_get_def split: option.splits)
  obtain seq d1 where p: "dict_pop f (PList []) d = (seq, d1)"
    by (cases "dict_pop f (PList []) d")
  with pop have seq: "seq = PList xs" by simp
  from enumerate_assign_returns [OF assms(2), of "[]" "[]"] obtain r where
    "enumerate_assign body 0 xs (PList xs) = Inr r" by auto
  then show ?thesis by (simp add: rewrite_field_def p seq)
qed

lemma dict_get_rewrite_field_other:
  assumes "rewrite_field f body d = Inr d'" and "g \<noteq> f"
  shows "dict_get g dflt d' = dict_get g dflt d"
  using rewrite_field_other [OF assms] by (simp add: dict_get_def)

lemma resolve_service_links_returns:
  assumes "linkable_service v"
  shows "\<exists>v'. resolve_service_links namespace servicekeys v = Inr v'"
proof -
  from assms obtain d where v: "v = PDict d"
    and l: "aliased_links (dict_get ''links'' (PList []) d)"
    and f: "string_list (dict_get ''volumes_from'' (PList []) d)"
    by (auto simp: linkable_service_def split: pyval.splits)
  from l obtain ls where ls: "dict_get ''links'' (PList []) d = PList ls"
    and lsok: "list_all (\<lambda>x. case x of PStr s \<Rightarrow> CHR '':'' \<in> set s | _ \<Rightarrow> False) ls"
    by (auto simp: aliased_links_def split: pyval.splits)
  have "list_all (\<lambda>x. \<exists>r. link_item namespace servicekeys x = Inr r) ls"
    unfolding list_all_iff
  proof
    fix x assume "x \<in> set ls"
    with lsok obtain s where "x = PStr s" and "CHR '':'' \<in> set s"
      by (cases x) (auto simp: list_all_iff)
    then show "\<exists>r. link_item namespace servicekeys x = Inr r"
      by (simp add: link_item_returns)
  qed
  from rewrite_field_returns [OF ls this] obtain d1 where
    d1: "rewrite_field ''links'' (link_item namespace servicekeys) d = Inr d1" by blast
  from f obtain fs where "dict_get ''volumes_from'' (PList []) d = PList fs"
    and fsok: "list_all (\<lambda>x. case x of PStr s \<Rightarrow> True | _ \<Rightarrow> False) fs"
    by (auto simp: string_list_def split: pyval.splits)
  then have fs: "dict_get ''volumes_from'' (PList []) d1 = PList fs"
    using dict_get_rewrite_field_other [OF d1, of "''volumes_from''"] by simp
  have "list_all (\<lambda>x. \<exists>r. volumes_from_item namespace servicekeys x = Inr r) fs"
    unfolding list_all_iff
  proof
    fix x assume "x \<in> set fs"
    with fsok obtain s where "x = PStr s"
      by (cases x) (auto simp: list_all_iff)
    then show "\<exists>r. volumes_from_item namespace servicekeys x = Inr r"
      by (simp add: volumes_from_item_returns)
  qed
  from rewrite_field_returns [OF fs this] obtain d2 where
    "rewrite_field ''volumes_from'' (volumes_from_item namespace servicekeys) d1 = Inr d2"
    by blast
  with d1 show ?thesis by (simp add: resolve_service_links_def v)
qed

lemma resolve_namespaced_links_returns:
  "distinct (map snd config) \<Longrightarrow> list_all (\<lambda>ka. linkable_service (h (snd ka))) config \<Longrightarrow>
   \<exists>h'. resolve_namespaced_links config namespace servicekeys h = Inr h'"
proof (induction config arbitrary: h)
  case Nil
  then show ?case by simp
next
  case (Cons ka config)
  obtain key a where ka: "ka = (key, a)" by (cases ka)
  from Cons.prems(1) have fresh: "a \<notin> snd ` set config" and dist: "distinct (map snd config)"
    by (auto simp: ka)
  from Cons.prems(2) have here: "linkable_service (h a)"
    and rest: "list_all (\<lambda>ka. linkable_service (h (snd ka))) config" by (simp_all add: ka)
  show ?case
  proof (cases "key \<in> set servicekeys")
    case False
    with Cons.IH [OF dist rest] show ?thesis by (simp add: ka)
  next
    case True
    from resolve_service_links_returns [OF here] obtain service where
      s: "resolve_service_links namespace servicekeys (h a) = Inr service" by blast
    have "list_all (\<lambda>ka. linkable_service ((h(a := service)) (snd ka))) config"
      using rest fresh by (auto simp: list_all_iff)
    from Cons.IH [of "h(a := service)", OF dist this] obtain h' where
      "resolve_namespaced_links config namespace servicekeys (h(a := service)) = Inr h'" ..
    with True s show ?thesis by (simp add: ka)
  qed
qed

lemma rewrite_references_returns:
  assumes "linkable_document doc"
  shows "\<exists>doc'. rewrite_references namespace doc = Inr doc'"
proof -
  obtain config st where al: "alloc_config doc initial_state = (config, st)"
    by (cases "alloc_config doc initial_state")
  have "list_all (\<lambda>kv. linkable_service (snd kv)) (deref (heap st) config)"
    using assms unfolding alloc_config_deref [OF al] linkable_document_def .
  then have "list_all (\<lambda>ka. linkable_service (heap st (snd ka))) config"
    by (simp add: deref_def list_all_iff)
  from resolve_namespaced_links_returns [OF alloc_config_distinct [OF al] this]
  obtain h where "resolve_namespaced_links config namespace (map fst config) (heap st) = Inr h"
    by blast
  then show ?thesis by (simp add: rewrite_references_def al)
qed

text \<open>
  What a returning run of reference rewriting does to one \<^verbatim>\<open>links\<close> entry.
\<close>

lemma links_entry_rewritten:
  assumes rw: "rewrite_references ns doc = Inr doc'"
      and ns: "ns \<noteq> []"
      and b: "map_of doc b = Some (PDict svc)"
      and links: "map_of svc ''links'' = Some (PList ls)"
      and i: "i < length ls"
  shows "\<exists>svc' ls'. map_of doc' b = Some (PDict svc')
       \<and> map_of svc' ''links'' = Some (PList ls')
       \<and> length ls' = length ls
       \<and> (\<forall>a alias. ls ! i = PStr (a @ '':'' @ alias) \<and> a \<in> fst ` set doc
              \<and> CHR '':'' \<notin> set a \<and> alias \<noteq> [] \<and> CHR '':'' \<notin> set alias
            \<longrightarrow> ls' ! i = PStr (ns @ ''.'' @ a @ '':'' @ alias))
       \<and> (\<forall>c rest. ls ! i = PStr (c @ '':'' @ rest) \<and> c \<notin> fst ` set doc
              \<and> CHR '':'' \<notin> set c
            \<longrightarrow> ls' ! i = PStr (c @ '':'' @ rest))"
proof -
  let ?keys = "map fst doc"
  let ?ls' = "map (assigned (link_item ns ?keys)) ls"
  from rewrite_references_service [OF rw b] obtain v' where
    v': "map_of doc' b = Some v'" and
    r: "resolve_service_links ns ?keys (PDict svc) = Inr v'"
    by blast
  from i have ne: "ls \<noteq> []" by auto
  from resolve_service_links_links [OF r links ne] obtain svc' where
    svc': "v' = PDict svc'" and l': "map_of svc' ''links'' = Some (PList ?ls')"
    by blast
  have at: "?ls' ! i = assigned (link_item ns ?keys) (ls ! i)" using i by simp
  have own: "?ls' ! i = PStr (ns @ ''.'' @ a @ '':'' @ al)"
    if "ls ! i = PStr (a @ '':'' @ al)" "a \<in> fst ` set doc" "CHR '':'' \<notin> set a"
       "al \<noteq> []" "CHR '':'' \<notin> set al" for a al
  proof -
    from that(2) have "a \<in> set ?keys" by simp
    from link_item_local [OF that(3) that(5) that(4) this ns] show ?thesis
      unfolding at that(1) by (simp add: assigned_def)
  qed
  have other: "?ls' ! i = PStr (c @ '':'' @ rest)"
    if "ls ! i = PStr (c @ '':'' @ rest)" "c \<notin> fst ` set doc" "CHR '':'' \<notin> set c" for c rest
  proof -
    from that(2) have "c \<notin> set ?keys" by simp
    from link_item_foreign [OF that(3) this] show ?thesis
      unfolding at that(1) by (simp add: assigned_def)
  qed
  from v' svc' l' own other show ?thesis by auto
qed

text \<open>
  The same for an entry that names \<open>include\<close>, in either field.
\<close>

lemma include_entry_rewritten:
  assumes rw: "rewrite_references ns doc = Inr doc'"
      and ns: "ns \<noteq> []"
      and inc: "''include'' \<in> fst ` set doc"
      and s: "map_of doc s = Some (PDict svc)"
      and field: "field = ''links'' \<or> field = ''volumes_from''"
      and f: "map_of svc field = Some (PList ls)"
      and i: "i < length ls"
      and e: "ls ! i = PStr (''include:'' @ x)"
      and x: "x \<noteq> []" "CHR '':'' \<notin> set x"
  shows "\<exists>svc' ls'. map_of doc' s = Some (PDict svc')
       \<and> map_of svc' field = Some (PList ls')
       \<and> ls' ! i = PStr (ns @ ''.include:'' @ x)"
proof -
  let ?keys = "map fst doc"
  from rewrite_references_service [OF rw s] obtain v' where
    v': "map_of doc' s = Some v'" and
    r: "resolve_service_links ns ?keys (PDict svc) = Inr v'"
    by blast
  from i have ne: "ls \<noteq> []" by auto
  from inc have key: "''include'' \<in> set ?keys" by simp
  have nc: "CHR '':'' \<notin> set ''include''" by simp
  from field show ?thesis
  proof
    assume fl: "field = ''links''"
    from resolve_service_links_links [OF r f [unfolded fl] ne] obtain svc' where
      svc': "v' = PDict svc'" and
      l': "map_of svc' ''links'' = Some (PList (map (assigned (link_item ns ?keys)) ls))"
      by blast
    have "map (assigned (link_item ns ?keys)) ls ! i = PStr (ns @ ''.include:'' @ x)"
      using i e link_item_local [OF nc x(2) x(1) key ns] by (simp add: assigned_def)
    with v' svc' l' fl show ?thesis by simp
  next
    assume fl: "field = ''volumes_from''"
    from resolve_service_links_volumes_from [OF r f [unfolded fl] ne] obtain svc' where
      svc': "v' = PDict svc'" and
      l': "map_of svc' ''volumes_from'' =
             Some (PList (map (assigned (volumes_from_item ns ?keys)) ls))"
      by blast
    have "map (assigned (volumes_from_item ns ?keys)) ls ! i = PStr (ns @ ''.include:'' @ x)"
      using i e volumes_from_item_local [OF nc x(2) x(1) key ns] by (simp add: assigned_def)
    with v' svc' l' fl show ?thesis by simp
  qed
qed

section \<open>Nested includes\<close>

lemma fetch_each_append:
  "fetch_each w fc depth parent (xs @ ys) st = Inr (r, st') \<Longrightarrow>
   \<exists>ds st2 ds'. fetch_each w fc depth parent xs st = Inr (ds, st2)
     \<and> fetch_each w fc depth parent ys st2 = Inr (ds', st') \<and> r = ds @ ds'"
proof (induction xs arbitrary: st r)
  case Nil
  then show ?case by simp
next
  case (Cons x xs)
  obtain namespace ref where x: "x = (namespace, ref)" by (cases x)
  from Cons.prems obtain config st1 configs where
    fi: "fetch_include w fc depth ref (effective_namespace parent namespace) st
           = Inr (config, st1)" and
    fe: "fetch_each w fc depth parent (xs @ ys) st1 = Inr (configs, st')" and
    r: "r = config # configs"
    by (auto simp: x split: sum.splits prod.splits)
  from Cons.IH [OF fe] obtain ds st2 ds' where
    "fetch_each w fc depth parent xs st1 = Inr (ds, st2)"
    "fetch_each w fc depth parent ys st2 = Inr (ds', st')" "configs = ds @ ds'"
    by blast
  with fi r show ?case by (simp add: x)
qed

lemma qualify_keys_bound:
  "qualify_keys namespace ks config = Inr config' \<Longrightarrow>
   fst ` set config' \<subseteq>
     (fst ` set config - (set ks - {''include''})) \<union> (\<lambda>k. namespace @ ''.'' @ k) ` set ks"
proof (induction ks arbitrary: config)
  case Nil
  then show ?case by simp
next
  case (Cons key ks)
  show ?case
  proof (cases "key = ''include''")
    case True
    with Cons.prems have "qualify_keys namespace ks config = Inr config'" by simp
    from Cons.IH [OF this] show ?thesis using True by auto
  next
    case False
    with Cons.prems obtain service where
      rec: "qualify_keys namespace ks
              (AList.update (namespace @ ''.'' @ key) service (AList.delete key config))
            = Inr config'"
      by (auto split: option.splits)
    from Cons.IH [OF rec] show ?thesis
      unfolding keys_update keys_delete using False by auto
  qed
qed

lemma qualify_keys_all:
  assumes "qualify_keys namespace (map fst config) config = Inr config'"
      and "k \<in> fst ` set config'"
  shows "k = ''include'' \<or> (\<exists>k0. k = namespace @ ''.'' @ k0)"
  using qualify_keys_bound [OF assms(1)] assms(2) by auto

lemma namespaced_fragment_keys:
  assumes "namespaced_fragment w fc ref namespace st = Inr (config, st')"
      and "k \<in> fst ` set config"
  shows "k = ''include'' \<or> (\<exists>k0. k = namespace @ ''.'' @ k0)"
proof -
  from assms(1) obtain c0 where "qualify_keys namespace (map fst c0) c0 = Inr config"
    by (auto simp: namespaced_fragment_def split: pyval.splits sum.splits prod.splits)
  from qualify_keys_all [OF this assms(2)] show ?thesis .
qed

text \<open>
  C8. Let an ancestor fragment be resolved under any namespace \<open>N\<close>, and let
  its own include mapping declare the entry \<open>(M, ref')\<close> at position \<open>i\<close>. Then,
  in the state reached after the entries before it, that entry is resolved by
  \<^verbatim>\<open>fetch_include\<close> called with the namespace \<open>M\<close> itself: \<open>N\<close> is no part of it.
  The keys of the nested fragment are qualified with \<open>M\<close> alone (each is
  \<open>include\<close> or \<open>M.k\<close>), its services are keys of the nested result, and the
  nested result's keys are keys of the ancestor's result.
\<close>

theorem nested_include_namespace_restarts:
  assumes anc: "fetch_include w fc (Suc depth) ref N st = Inr (d, st')"
      and frag: "namespaced_fragment w fc ref N st = Inr (config, st1)"
      and items: "include_items (heap st1) config = Inr items"
      and i: "i < length items"
      and entry: "items ! i = (M, ref')"
  shows "\<exists>ds st2 d2 st3 config2 st4.
           fetch_each w fc depth None (take i items) st1 = Inr (ds, st2)
         \<and> fetch_include w fc depth ref' M st2 = Inr (d2, st3)
         \<and> fst ` set d2 \<subseteq> fst ` set d
         \<and> namespaced_fragment w fc ref' M st2 = Inr (config2, st4)
         \<and> fst ` set config2 - {''include''} \<subseteq> fst ` set d2
         \<and> (\<forall>k \<in> fst ` set config2. k = ''include'' \<or> (\<exists>k0. k = M @ ''.'' @ k0))"
proof -
  from anc frag obtain configs config' where
    fi: "fetch_includes w fc depth config None st1 = Inr (configs, config', st')" and
    d: "d = merge_configs config' configs"
    by (auto split: sum.splits prod.splits)
  from fi items have fe: "fetch_each w fc depth None items st1 = Inr (configs, st')"
    by (auto split: sum.splits prod.splits)
  have split: "items = take i items @ (M, ref') # drop (Suc i) items"
    using id_take_nth_drop [OF i] entry by simp
  from fe have "fetch_each w fc depth None (take i items @ (M, ref') # drop (Suc i) items) st1
      = Inr (configs, st')"
    using split by simp
  from fetch_each_append [OF this] obtain ds st2 ds' where
    pre: "fetch_each w fc depth None (take i items) st1 = Inr (ds, st2)" and
    post: "fetch_each w fc depth None ((M, ref') # drop (Suc i) items) st2 = Inr (ds', st')" and
    c: "configs = ds @ ds'"
    by blast
  from post obtain d2 st3 rest where
    nested: "fetch_include w fc depth ref' (effective_namespace None M) st2 = Inr (d2, st3)" and
    ds': "ds' = d2 # rest"
    by (auto split: sum.splits prod.splits)
  have ns: "effective_namespace None M = M" by (simp add: effective_namespace_def)
  have "d2 \<in> set configs" unfolding c ds' by simp
  then have sub: "fst ` set d2 \<subseteq> fst ` set d"
    unfolding d keys_merge_configs by blast
  from nested obtain n where depth: "depth = Suc n" by (cases depth) auto
  from nested [unfolded ns depth] obtain config2 st4 cs config2' where
    nf: "namespaced_fragment w fc ref' M st2 = Inr (config2, st4)" and
    fi2: "fetch_includes w fc n config2 None st4 = Inr (cs, config2', st3)" and
    d2: "d2 = merge_configs config2' cs"
    by (auto split: sum.splits prod.splits)
  from fetch_no_include_key(2) [OF fi2] have "config2' = AList.delete ''include'' config2"
    by simp
  then have own: "fst ` set config2 - {''include''} \<subseteq> fst ` set d2"
    unfolding d2 keys_merge_configs by (auto simp: keys_delete)
  have pref: "\<forall>k \<in> fst ` set config2. k = ''include'' \<or> (\<exists>k0. k = M @ ''.'' @ k0)"
    using namespaced_fragment_keys [OF nf] by blast
  from nested have nested': "fetch_include w fc depth ref' M st2 = Inr (d2, st3)"
    unfolding ns .
  show ?thesis
    by (intro exI conjI) (rule pre, rule nested', rule sub, rule nf, rule own, rule pref)
qed

theorem nested_include_namespace_restarts_witness:
  "\<exists>config st1 st' ds st2 d2 st3 config2 st4.
     fetch_include demo_world [] (Suc 2) (PStr ''./outer.yml'') ''outer'' initial_state
       = Inr ([(''outer.a'', 0), (''inner.b'', 2)], st')
   \<and> namespaced_fragment demo_world [] (PStr ''./outer.yml'') ''outer'' initial_state
       = Inr (config, st1)
   \<and> include_items (heap st1) config = Inr [(''inner'', PStr ''./inner.yml'')]
   \<and> fetch_each demo_world [] 2 None (take 0 [(''inner'', PStr ''./inner.yml'')]) st1 = Inr (ds, st2)
   \<and> fetch_include demo_world [] 2 (PStr ''./inner.yml'') ''inner'' st2 = Inr (d2, st3)
   \<and> fst ` set d2 \<subseteq> {''outer.a'', ''inner.b''}
   \<and> namespaced_fragment demo_world [] (PStr ''./inner.yml'') ''inner'' st2 = Inr (config2, st4)
   \<and> fst ` set config2 - {''include''} \<subseteq> fst ` set d2"
proof -
  have "map_sum id fst
          (fetch_include demo_world [] (Suc 2) (PStr ''./outer.yml'') ''outer'' initial_state)
        = Inr [(''outer.a'', 0), (''inner.b'', 2)]"
    by code_simp
  then obtain st' where
    anc: "fetch_include demo_world [] (Suc 2) (PStr ''./outer.yml'') ''outer'' initial_state
            = Inr ([(''outer.a'', 0), (''inner.b'', 2)], st')"
    by (cases "fetch_include demo_world [] (Suc 2) (PStr ''./outer.yml'') ''outer'' initial_state")
       auto
  have "(case namespaced_fragment demo_world [] (PStr ''./outer.yml'') ''outer'' initial_state of
           Inl e \<Rightarrow> None
         | Inr (config, st1) \<Rightarrow> Some (include_items (heap st1) config))
        = Some (Inr [(''inner'', PStr ''./inner.yml'')])"
    by code_simp
  then obtain config st1 where
    frag: "namespaced_fragment demo_world [] (PStr ''./outer.yml'') ''outer'' initial_state
             = Inr (config, st1)" and
    items: "include_items (heap st1) config = Inr [(''inner'', PStr ''./inner.yml'')]"
    by (auto split: sum.splits prod.splits)
  have i: "0 < length [(''inner'', PStr ''./inner.yml'')]" by simp
  have entry: "[(''inner'', PStr ''./inner.yml'')] ! 0 = (''inner'', PStr ''./inner.yml'')" by simp
  from nested_include_namespace_restarts [OF anc frag items i entry]
  obtain ds st2 d2 st3 config2 st4 where
    1: "fetch_each demo_world [] 2 None (take 0 [(''inner'', PStr ''./inner.yml'')]) st1 = Inr (ds, st2)" and
    2: "fetch_include demo_world [] 2 (PStr ''./inner.yml'') ''inner'' st2 = Inr (d2, st3)" and
    3: "fst ` set d2 \<subseteq> fst ` set [(''outer.a'', 0::nat), (''inner.b'', 2)]" and
    4: "namespaced_fragment demo_world [] (PStr ''./inner.yml'') ''inner'' st2 = Inr (config2, st4)" and
    5: "fst ` set config2 - {''include''} \<subseteq> fst ` set d2"
    by (elim exE conjE)
  from 3 have keys: "fst ` set d2 \<subseteq> {''outer.a'', ''inner.b''}" by simp
  show ?thesis
    by (intro exI conjI) (rule anc, rule frag, rule items, rule 1, rule 2, rule keys, rule 4, rule 5)
qed

section \<open>Reference rewriting of a linkable document\<close>

text \<open>
  C6. Reference rewriting of a linkable document under a non-empty namespace
  \<open>ns\<close> returns a document. Let \<open>b\<close> be a service of the document with a
  \<^verbatim>\<open>links\<close> list. An entry \<open>a:alias\<close> of that list whose name \<open>a\<close> is a key of
  the document becomes \<open>ns.a:alias\<close> (so \<open>a:db\<close> becomes \<open>ns.a:db\<close>); an entry
  \<open>c:rest\<close> whose name \<open>c\<close> is no key of the document stays as it is. The name
  is the text before the first \<open>':'\<close>, and the alias is non-empty and has no
  \<open>':'\<close> of its own.
\<close>

theorem reference_rewriting_scope:
  assumes wf: "linkable_document doc"
      and ns: "ns \<noteq> []"
      and b: "map_of doc b = Some (PDict svc)"
      and links: "map_of svc ''links'' = Some (PList ls)"
      and i: "i < length ls"
  shows "\<exists>doc' svc' ls'. rewrite_references ns doc = Inr doc'
       \<and> map_of doc' b = Some (PDict svc')
       \<and> map_of svc' ''links'' = Some (PList ls')
       \<and> length ls' = length ls
       \<and> (\<forall>a alias. ls ! i = PStr (a @ '':'' @ alias) \<and> a \<in> fst ` set doc
              \<and> CHR '':'' \<notin> set a \<and> alias \<noteq> [] \<and> CHR '':'' \<notin> set alias
            \<longrightarrow> ls' ! i = PStr (ns @ ''.'' @ a @ '':'' @ alias))
       \<and> (\<forall>c rest. ls ! i = PStr (c @ '':'' @ rest) \<and> c \<notin> fst ` set doc
              \<and> CHR '':'' \<notin> set c
            \<longrightarrow> ls' ! i = PStr (c @ '':'' @ rest))"
proof -
  from rewrite_references_returns [OF wf] obtain doc' where
    rw: "rewrite_references ns doc = Inr doc'" by blast
  from links_entry_rewritten [OF rw ns b links i] rw show ?thesis by simp
qed

theorem reference_rewriting_scope_witness:
  "linkable_document
     [(''a'', PDict []), (''b'', PDict [(''links'', PList [PStr ''a:db'', PStr ''c:alias''])])]
 \<and> rewrite_references ''ns''
     [(''a'', PDict []), (''b'', PDict [(''links'', PList [PStr ''a:db'', PStr ''c:alias''])])] =
   Inr [(''a'', PDict []),
        (''b'', PDict [(''links'', PList [PStr ''ns.a:db'', PStr ''c:alias''])])]
 \<and> (\<exists>svc' ls'.
       map_of [(''a'', PDict []),
               (''b'', PDict [(''links'', PList [PStr ''ns.a:db'', PStr ''c:alias''])])] ''b''
         = Some (PDict svc')
     \<and> map_of svc' ''links'' = Some (PList ls')
     \<and> ls' ! 0 = PStr ''ns.a:db'')"
proof -
  let ?doc = "[(''a'', PDict []),
               (''b'', PDict [(''links'', PList [PStr ''a:db'', PStr ''c:alias''])])]"
  let ?doc' = "[(''a'', PDict []),
                (''b'', PDict [(''links'', PList [PStr ''ns.a:db'', PStr ''c:alias''])])]"
  have wf: "linkable_document ?doc"
    by (simp add: linkable_document_def linkable_service_def aliased_links_def
        string_list_def dict_get_def)
  have run: "rewrite_references ''ns'' ?doc = Inr ?doc'" by code_simp
  have ns: "''ns'' \<noteq> []" by simp
  have b: "map_of ?doc ''b'' = Some (PDict [(''links'', PList [PStr ''a:db'', PStr ''c:alias''])])"
    by simp
  have l: "map_of [(''links'', PList [PStr ''a:db'', PStr ''c:alias''])] ''links''
             = Some (PList [PStr ''a:db'', PStr ''c:alias''])" by simp
  have i: "0 < length [PStr ''a:db'', PStr ''c:alias'']" by simp
  from reference_rewriting_scope [OF wf ns b l i] obtain doc' svc' ls' where
    0: "rewrite_references ''ns'' ?doc = Inr doc'" and
    1: "map_of doc' ''b'' = Some (PDict svc')" and
    2: "map_of svc' ''links'' = Some (PList ls')" and
    3: "\<forall>a alias. [PStr ''a:db'', PStr ''c:alias''] ! 0 = PStr (a @ '':'' @ alias)
            \<and> a \<in> fst ` set ?doc \<and> CHR '':'' \<notin> set a \<and> alias \<noteq> [] \<and> CHR '':'' \<notin> set alias
          \<longrightarrow> ls' ! 0 = PStr (''ns'' @ ''.'' @ a @ '':'' @ alias)"
    by (elim exE conjE)
  from 0 run have d: "doc' = ?doc'" by simp
  from 3 [rule_format, of "''a''" "''db''"] have 4: "ls' ! 0 = PStr ''ns.a:db''" by simp
  have "\<exists>svc' ls'. map_of ?doc' ''b'' = Some (PDict svc')
     \<and> map_of svc' ''links'' = Some (PList ls') \<and> ls' ! 0 = PStr ''ns.a:db''"
    by (intro exI conjI) (rule 1 [unfolded d], rule 2, rule 4)
  with wf run show ?thesis by (intro conjI)
qed

text \<open>
  C10. \<^verbatim>\<open>fetch_include\<close> passes \<^verbatim>\<open>config.keys()\<close> as the local names while the
  \<open>include\<close> key is still in the dictionary (\<open>rewrite_references\<close> is that call).
  So reference rewriting of a linkable document that has an \<open>include\<close> key
  returns a document in which an entry \<open>include:x\<close> of a service's \<^verbatim>\<open>links\<close> or
  \<^verbatim>\<open>volumes_from\<close> has become \<open>ns.include:x\<close>.
\<close>

theorem include_key_counts_as_local:
  assumes wf: "linkable_document doc"
      and ns: "ns \<noteq> []"
      and inc: "''include'' \<in> fst ` set doc"
      and s: "map_of doc s = Some (PDict svc)"
      and field: "field = ''links'' \<or> field = ''volumes_from''"
      and f: "map_of svc field = Some (PList ls)"
      and i: "i < length ls"
      and e: "ls ! i = PStr (''include:'' @ x)"
      and x: "x \<noteq> []" "CHR '':'' \<notin> set x"
  shows "\<exists>doc' svc' ls'. rewrite_references ns doc = Inr doc'
       \<and> map_of doc' s = Some (PDict svc')
       \<and> map_of svc' field = Some (PList ls')
       \<and> ls' ! i = PStr (ns @ ''.include:'' @ x)"
proof -
  from rewrite_references_returns [OF wf] obtain doc' where
    rw: "rewrite_references ns doc = Inr doc'" by blast
  from include_entry_rewritten [OF rw ns inc s field f i e x] rw show ?thesis by simp
qed

theorem include_key_counts_as_local_witness:
  "linkable_document
     [(''web'', PDict [(''links'', PList [PStr ''include:x'']),
                       (''volumes_from'', PList [PStr ''include:y''])]),
      (''include'', PDict [])]
 \<and> rewrite_references ''ns''
     [(''web'', PDict [(''links'', PList [PStr ''include:x'']),
                       (''volumes_from'', PList [PStr ''include:y''])]),
      (''include'', PDict [])] =
   Inr [(''web'', PDict [(''links'', PList [PStr ''ns.include:x'']),
                         (''volumes_from'', PList [PStr ''ns.include:y''])]),
        (''include'', PDict [])]
 \<and> (\<exists>doc' svc' ls'.
       rewrite_references ''ns''
         [(''web'', PDict [(''links'', PList [PStr ''include:x'']),
                           (''volumes_from'', PList [PStr ''include:y''])]),
          (''include'', PDict [])] = Inr doc'
     \<and> map_of doc' ''web'' = Some (PDict svc')
     \<and> map_of svc' ''volumes_from'' = Some (PList ls')
     \<and> ls' ! 0 = PStr ''ns.include:y'')
 \<and> include_config demo_world 5 [(''include'', PDict [(''ns'', PStr ''./odd.yml'')])] [] =
   Inr [(''ns.web'', PDict [(''links'', PList [PStr ''ns.include:x'']),
                            (''volumes_from'', PList [PStr ''ns.include:y''])])]"
proof -
  let ?svc = "[(''links'', PList [PStr ''include:x'']),
               (''volumes_from'', PList [PStr ''include:y''])]"
  let ?doc = "[(''web'', PDict ?svc), (''include'', PDict [])]"
  let ?doc' = "[(''web'', PDict [(''links'', PList [PStr ''ns.include:x'']),
                         (''volumes_from'', PList [PStr ''ns.include:y''])]),
        (''include'', PDict [])]"
  have wf: "linkable_document ?doc"
    by (simp add: linkable_document_def linkable_service_def aliased_links_def
        string_list_def dict_get_def)
  have run: "rewrite_references ''ns'' ?doc = Inr ?doc'" by code_simp
  have e2e: "include_config demo_world 5 [(''include'', PDict [(''ns'', PStr ''./odd.yml'')])] [] =
   Inr [(''ns.web'', PDict [(''links'', PList [PStr ''ns.include:x'']),
                            (''volumes_from'', PList [PStr ''ns.include:y''])])]"
    by code_simp
  have "\<exists>doc' svc' ls'. rewrite_references ''ns'' ?doc = Inr doc'
       \<and> map_of doc' ''web'' = Some (PDict svc')
       \<and> map_of svc' ''volumes_from'' = Some (PList ls')
       \<and> ls' ! 0 = PStr (''ns'' @ ''.include:'' @ ''y'')"
    by (rule include_key_counts_as_local [OF wf, where svc = ?svc and ls = "[PStr ''include:y'']"])
       simp_all
  then have "\<exists>doc' svc' ls'. rewrite_references ''ns'' ?doc = Inr doc'
       \<and> map_of doc' ''web'' = Some (PDict svc')
       \<and> map_of svc' ''volumes_from'' = Some (PList ls')
       \<and> ls' ! 0 = PStr ''ns.include:y''"
    by simp
  with wf run e2e show ?thesis by (intro conjI)
qed

section \<open>What the cache does keep apart\<close>

text \<open>
  A second \<^verbatim>\<open>get\<close> of a location returns the same top-level dictionary as the
  first and leaves the state as it is: the two copies are equal, and since a
  top-level dictionary is a value of its own, adding or removing a key of one
  changes neither the other nor the cached one.
\<close>

lemma ConfigCache_get_again:
  assumes "ConfigCache_get w fc u st = Inr (config, st1)"
  shows "ConfigCache_get w fc u st1 = Inr (config, st1)"
proof (cases "map_of (cache st) u")
  case (Some c0)
  with assms show ?thesis by (auto simp: ConfigCache_get_def)
next
  case None
  with assms obtain doc st0 where
    "alloc_config doc st = (config, st0)" and "st1 = st0\<lparr>cache := (u, config) # cache st0\<rparr>"
    by (auto simp: ConfigCache_get_def split: sum.splits prod.splits)
  then show ?thesis by (simp add: ConfigCache_get_def)
qed

section \<open>Path normalization of one volumes entry\<close>

text \<open>
  What the \<^verbatim>\<open>volumes\<close> loop does hold to: an entry without a \<open>':'\<close> is left
  alone, and an entry \<open>host:container\<close> with exactly one \<open>':'\<close> gets an absolute
  host side and keeps its container side.
\<close>

lemma volume_item_plain:
  "CHR '':'' \<notin> set s \<Longrightarrow> volume_item ab (PStr s) = Inr None"
  by (simp add: volume_item_def)

lemma volume_item_host_container:
  assumes "CHR '':'' \<notin> set host" and "CHR '':'' \<notin> set container"
  shows "volume_item ab (PStr (host @ '':'' @ container)) =
           Inr (Some (PStr (ab host @ '':'' @ container)))"
  using assms by (simp add: volume_item_def split_on_sep split_on_no_sep)

section \<open>The keys of the resolved tree\<close>


lemma qualified_key_has_dot: "\<not> dot_free (M @ ''.'' @ k)"
  by (simp add: dot_free_def)




















end
